theory Spec2Isabelle
  imports Complex_Main "HOL-Library.Word"
begin

section \<open>Data model of the redaction engine (lib/pii.ts)\<close>

datatype RedactionMode = Hash | Mask | Drop

datatype Kind = Email | Phone | Url | Linkedin | Github | Address | Id | Name | Org | Loc

datatype Source = Regex | Ner | Flagger | Layout

text \<open>
  The type \<open>Span\<close> of the source. Offsets are JavaScript numbers used as
  indices; they are integers here. The field \<open>end\<close> is called \<open>endp\<close>
  (\<open>end\<close> is reserved). The optional fields \<open>source\<close> and \<open>score\<close> are options.
\<close>

record Span =
  start :: int
  endp :: int
  "value" :: string
  kind :: Kind
  source :: "Source option"
  score :: "real option"

section \<open>Array.prototype.sort with a comparator\<close>

text \<open>
  \<open>xs.sort(cmp)\<close> is stable, and for a consistent comparator its result is
  the one stable arrangement in ascending order; insertion from the right
  computes it. \<open>cmp a b > 0\<close> means that \<open>a\<close> goes after \<open>b\<close>.
\<close>

fun insert_by :: "('a \<Rightarrow> 'a \<Rightarrow> real) \<Rightarrow> 'a \<Rightarrow> 'a list \<Rightarrow> 'a list" where
  "insert_by cmp x [] = [x]"
| "insert_by cmp x (y # ys) =
     (if cmp x y > 0 then y # insert_by cmp x ys else x # y # ys)"

definition sort_by :: "('a \<Rightarrow> 'a \<Rightarrow> real) \<Rightarrow> 'a list \<Rightarrow> 'a list" where
  "sort_by cmp xs = foldr (insert_by cmp) xs []"

section \<open>The span resolver\<close>

text \<open>The comparator \<open>(a, b) => a.start - b.start || b.end - a.end\<close>.\<close>

definition span_cmp :: "Span \<Rightarrow> Span \<Rightarrow> real" where
  "span_cmp a b =
     (if start a - start b \<noteq> 0 then real_of_int (start a - start b)
      else real_of_int (endp b - endp a))"

text \<open>\<open>priorityMap[src ?? ""] ?? 0\<close> with the table \<open>{regex: 3, flagger: 2, layout: 2, ner: 1}\<close>.\<close>

definition priority :: "Source option \<Rightarrow> nat" where
  "priority src =
     (case src of
        Some Regex \<Rightarrow> 3
      | Some Flagger \<Rightarrow> 2
      | Some Layout \<Rightarrow> 2
      | Some Ner \<Rightarrow> 1
      | None \<Rightarrow> 0)"

text \<open>One iteration of the loop of \<open>mergeAndDedupe\<close>; \<open>top\<close> is the last element of \<open>out\<close>.\<close>

definition resolve_step :: "Span list \<Rightarrow> Span \<Rightarrow> Span list" where
  "resolve_step out s =
     (if out = [] \<or> start s \<ge> endp (last out) then out @ [s]
      else
        let top = last out;
            topLen = endp top - start top;
            sLen = endp s - start s;
            preferS = (sLen < topLen \<or> priority (source s) > priority (source top))
        in if preferS then out[length out - 1 := s] else out)"

definition mergeAndDedupe :: "Span list \<Rightarrow> Span list" where
  "mergeAndDedupe spans = foldl resolve_step [] (sort_by span_cmp spans)"

section \<open>Strings and the regular expressions of the host\<close>

text \<open>
  A JavaScript string is a sequence of UTF-16 code units; a \<open>string\<close> here holds
  the code units below 256. The character tables below are those of
  ECMAScript restricted to that range.
\<close>

definition code :: "char \<Rightarrow> nat" where
  "code c = of_char c"

definition is_digit :: "char \<Rightarrow> bool" where
  "is_digit c = (48 \<le> code c \<and> code c \<le> 57)"

definition is_AZ :: "char \<Rightarrow> bool" where
  "is_AZ c = (65 \<le> code c \<and> code c \<le> 90)"

definition is_az :: "char \<Rightarrow> bool" where
  "is_az c = (97 \<le> code c \<and> code c \<le> 122)"

text \<open>\<open>\w\<close> is \<open>[A-Za-z0-9_]\<close>.\<close>

definition is_word :: "char \<Rightarrow> bool" where
  "is_word c = (is_AZ c \<or> is_az c \<or> is_digit c \<or> c = CHR ''_'')"

text \<open>\<open>\s\<close>: TAB, LF, VT, FF, CR, SPACE and NO-BREAK SPACE (the white space and line terminators below 256).\<close>

definition is_space :: "char \<Rightarrow> bool" where
  "is_space c = (code c \<in> {9, 10, 11, 12, 13, 32, 160})"

text \<open>
  Case folding of a regular expression with the flag \<open>i\<close> and without \<open>u\<close>
  (Canonicalize): the upper-case mapping of one code unit, where it is one
  code unit. Below 256 it moves \<open>a-z\<close> and the small Latin-1 letters with a
  capital in the range.
\<close>

definition canon :: "char \<Rightarrow> char" where
  "canon c =
     (if is_az c \<or> (224 \<le> code c \<and> code c \<le> 254 \<and> code c \<noteq> 247)
      then char_of (code c - 32) else c)"

text \<open>
  Regular expressions without captures: a character class, the empty
  pattern, \<open>\b\<close>, \<open>$\<close>, sequence, alternative, and the greedy quantifier
  \<open>{lo, lo + extra}\<close> (\<open>extra = None\<close>: unbounded).
\<close>

datatype rx =
    Cls "char \<Rightarrow> bool"
  | Eps
  | WordB
  | EndT
  | Seq rx rx
  | Alt rx rx
  | Rep nat "nat option" rx

definition dec :: "nat option \<Rightarrow> nat option" where
  "dec hi = (case hi of None \<Rightarrow> None | Some k \<Rightarrow> Some (k - 1))"

text \<open>
  The matchers return the end positions a backtracking matcher tries, in its
  order of preference; the match taken is the first. \<open>star_from\<close> is
  RepeatMatcher once the minimum is reached: an iteration must consume
  something (ends lie between the position and the length \<open>n\<close> of the text),
  and fewer iterations are tried after more.
\<close>

function star_from :: "(nat \<Rightarrow> nat list) \<Rightarrow> nat \<Rightarrow> nat option \<Rightarrow> nat \<Rightarrow> nat list" where
  "star_from step n hi i =
     (if hi = Some 0 then [i]
      else concat (map (\<lambda>j. star_from step n (dec hi) j)
                       (filter (\<lambda>j. i < j \<and> j \<le> n) (step i))) @ [i])"
  by pat_completeness auto
termination
  by (relation "measure (\<lambda>(step, n, hi, i). n - i)") auto

declare star_from.simps [simp del]

fun rep_min :: "(nat \<Rightarrow> nat list) \<Rightarrow> nat \<Rightarrow> nat \<Rightarrow> nat option \<Rightarrow> nat \<Rightarrow> nat list" where
  "rep_min step n 0 hi i = star_from step n hi i"
| "rep_min step n (Suc lo) hi i = concat (map (\<lambda>j. rep_min step n lo hi j) (step i))"

definition is_boundary :: "string \<Rightarrow> nat \<Rightarrow> bool" where
  "is_boundary t i =
     ((0 < i \<and> i \<le> length t \<and> is_word (t ! (i - 1))) \<noteq> (i < length t \<and> is_word (t ! i)))"

fun ms :: "rx \<Rightarrow> string \<Rightarrow> nat \<Rightarrow> nat list" where
  "ms (Cls p) t i = (if i < length t \<and> p (t ! i) then [Suc i] else [])"
| "ms Eps t i = [i]"
| "ms WordB t i = (if is_boundary t i then [i] else [])"
| "ms EndT t i = (if i = length t then [i] else [])"
| "ms (Seq a b) t i = concat (map (\<lambda>j. ms b t j) (ms a t i))"
| "ms (Alt a b) t i = ms a t i @ ms b t i"
| "ms (Rep lo extra r) t i = rep_min (\<lambda>j. ms r t j) (length t) lo extra i"

text \<open>RegExpBuiltinExec from \<open>lastIndex = i\<close>: the leftmost start with a match, and the first end there.\<close>

function find_from :: "rx \<Rightarrow> string \<Rightarrow> nat \<Rightarrow> (nat \<times> nat) option" where
  "find_from r t i =
     (if i > length t then None
      else case ms r t i of
             e # _ \<Rightarrow> Some (i, e)
           | [] \<Rightarrow> find_from r t (Suc i))"
  by pat_completeness auto
termination
  by (relation "measure (\<lambda>(r, t, i). Suc (length t) - i)") auto

declare find_from.simps [simp del]

lemma star_from_bounds:
  "j \<in> set (star_from step n hi i) \<Longrightarrow> i \<le> j \<and> (i \<le> n \<longrightarrow> j \<le> n)"
proof (induction step n hi i arbitrary: j rule: star_from.induct)
  case (1 step n hi i)
  show ?case
  proof (cases "hi = Some 0")
    case True
    with "1.prems" show ?thesis by (subst (asm) star_from.simps) simp
  next
    case False
    from "1.prems" False
    consider "j = i"
      | k where "k \<in> set (step i)" "i < k" "k \<le> n" "j \<in> set (star_from step n (dec hi) k)"
      by (subst (asm) star_from.simps) auto
    then show ?thesis
    proof cases
      case 1
      then show ?thesis by simp
    next
      case 2
      with "1.IH" [OF False, of k j] show ?thesis by auto
    qed
  qed
qed

lemma rep_min_bounds:
  assumes step: "\<And>i j. i \<le> n \<Longrightarrow> j \<in> set (step i) \<Longrightarrow> i \<le> j \<and> j \<le> n"
  shows "i \<le> n \<Longrightarrow> j \<in> set (rep_min step n lo hi i) \<Longrightarrow> i \<le> j \<and> j \<le> n"
proof (induction lo arbitrary: i j)
  case 0
  then show ?case using star_from_bounds [of j step n hi i] by simp
next
  case (Suc lo)
  from Suc.prems(2) obtain k where k: "k \<in> set (step i)" "j \<in> set (rep_min step n lo hi k)"
    by auto
  from step [OF Suc.prems(1) k(1)] have "i \<le> k" "k \<le> n" by simp_all
  with Suc.IH [OF \<open>k \<le> n\<close> k(2)] show ?case by simp
qed

lemma ms_bounds: "i \<le> length t \<Longrightarrow> j \<in> set (ms r t i) \<Longrightarrow> i \<le> j \<and> j \<le> length t"
proof (induction r arbitrary: i j)
  case (Cls p)
  then show ?case by (simp split: if_splits)
next
  case Eps
  then show ?case by simp
next
  case WordB
  then show ?case by (simp split: if_splits)
next
  case EndT
  then show ?case by (simp split: if_splits)
next
  case (Seq a b)
  from Seq.prems(2) obtain k where k: "k \<in> set (ms a t i)" "j \<in> set (ms b t k)" by auto
  from Seq.IH(1) [OF Seq.prems(1) k(1)] have "i \<le> k" "k \<le> length t" by simp_all
  with Seq.IH(2) [OF \<open>k \<le> length t\<close> k(2)] show ?case by simp
next
  case (Alt a b)
  from Alt.prems(2) have "j \<in> set (ms a t i) \<or> j \<in> set (ms b t i)" by simp
  with Alt.IH Alt.prems(1) show ?case by blast
next
  case (Rep lo extra r)
  have mem: "j \<in> set (rep_min (ms r t) (length t) lo extra i)"
    using Rep.prems(2) by simp
  show ?case
    by (rule rep_min_bounds [of "length t" "ms r t", OF Rep.IH Rep.prems(1) mem])
qed

lemma find_from_bounds:
  "find_from r t i = Some (s, e) \<Longrightarrow> i \<le> s \<and> s \<le> e \<and> e \<le> length t"
proof (induction r t i rule: find_from.induct)
  case (1 r t i)
  show ?case
  proof (cases "i > length t")
    case True
    with "1.prems" show ?thesis by (simp add: find_from.simps [of r t i])
  next
    case False
    note le = this
    show ?thesis
    proof (cases "ms r t i")
      case Nil
      with "1.prems" le have "find_from r t (Suc i) = Some (s, e)"
        by (simp add: find_from.simps [of r t i])
      with "1.IH" [OF le Nil] show ?thesis by simp
    next
      case (Cons e' es)
      with "1.prems" le have "s = i" "e = e'" by (simp_all add: find_from.simps [of r t i])
      moreover have "e' \<in> set (ms r t i)" using Cons by simp
      ultimately show ?thesis using ms_bounds [of i t e' r] le by simp
    qed
  qed
qed

text \<open>
  The matches of a global regular expression, as \<open>matchAll\<close> and \<open>replace\<close>
  enumerate them: after a match the search resumes at its end, one further
  after an empty match.
\<close>

function scan_from :: "rx \<Rightarrow> string \<Rightarrow> nat \<Rightarrow> (nat \<times> nat) list" where
  "scan_from r t i =
     (case find_from r t i of
        None \<Rightarrow> []
      | Some (s, e) \<Rightarrow> (s, e) # scan_from r t (if e = s then Suc e else e))"
  by pat_completeness auto
termination
proof (relation "measure (\<lambda>(r, t, i). Suc (length t) - i)")
  show "wf (measure (\<lambda>(r, t, i). Suc (length t) - i))" by simp
next
  fix r t i x2 s e
  assume "find_from r t i = Some x2" "(s, e) = x2"
  then have "find_from r t i = Some (s, e)" by simp
  from find_from_bounds [OF this]
  show "((r, t, if e = s then Suc e else e), r, t, i) \<in> measure (\<lambda>(r, t, i). Suc (length t) - i)"
    by auto
qed

declare scan_from.simps [simp del]

text \<open>\<open>t.replace(re, rep)\<close> for a global \<open>re\<close> and a replacement without \<open>$\<close>.\<close>

fun build :: "string \<Rightarrow> nat \<Rightarrow> (nat \<times> nat) list \<Rightarrow> string \<Rightarrow> string" where
  "build t pos [] rep = drop pos t"
| "build t pos ((s, e) # rest) rep = take (s - pos) (drop pos t) @ rep @ build t e rest rep"

definition replace_all :: "rx \<Rightarrow> string \<Rightarrow> string \<Rightarrow> string" where
  "replace_all r rep t = build t 0 (scan_from r t 0) rep"

subsection \<open>Pattern notation\<close>

definition ch :: "char \<Rightarrow> rx" where
  "ch c = Cls (\<lambda>d. d = c)"

definition chi :: "char \<Rightarrow> rx" where
  "chi c = Cls (\<lambda>d. canon d = canon c)"

definition seqs :: "rx list \<Rightarrow> rx" where
  "seqs rs = foldr Seq rs Eps"

definition alts :: "rx list \<Rightarrow> rx" where
  "alts rs = foldr Alt (butlast rs) (last rs)"

definition lit :: "string \<Rightarrow> rx" where
  "lit s = seqs (map ch s)"

definition liti :: "string \<Rightarrow> rx" where
  "liti s = seqs (map chi s)"

definition opt :: "rx \<Rightarrow> rx" where
  "opt r = Rep 0 (Some 1) r"

definition star :: "rx \<Rightarrow> rx" where
  "star r = Rep 0 None r"

definition plus1 :: "rx \<Rightarrow> rx" where
  "plus1 r = Rep 1 None r"

section \<open>Numbers\<close>

text \<open>
  A JavaScript number is an IEEE 754 binary64 value. A finite one is modelled
  by the real number it denotes. The operators \<open>+\<close>, \<open>-\<close>, \<open>*\<close> and \<open>/\<close>
  return the exact result rounded to the nearest double, ties to the even
  significand, and a decimal literal denotes the double nearest to it. A
  double has 53 significant bits and its least exponent is -1022, so around
  \<open>x\<close> the doubles are two to the power \<open>e - 52\<close> apart, where \<open>e\<close> is the
  integer part of the binary logarithm of \<open>|x|\<close>, or -1022 if that is
  smaller. Infinities and NaN are not modelled: magnitudes stay below two to
  the power 1024, and no divisor in the code is zero. Comparisons,
  \<open>Math.max\<close>, \<open>Math.min\<close>, \<open>Math.abs\<close> and \<open>Math.round\<close> are exact. The
  numbers of an input, such as the matrix of a text item, are doubles, that
  is, reals that \<open>round64\<close> leaves as they are.
\<close>

definition round_half_even :: "real \<Rightarrow> int" where
  "round_half_even q =
     (let f = \<lfloor>q\<rfloor>; r = q - of_int f
      in if r < 1 / 2 then f else if r > 1 / 2 then f + 1 else if even f then f else f + 1)"

definition round64 :: "real \<Rightarrow> real" where
  "round64 x =
     (if x = 0 then 0
      else let e = max \<lfloor>log 2 \<bar>x\<bar>\<rfloor> (- 1022); u = 2 powr (of_int e - 52)
           in of_int (round_half_even (x / u)) * u)"

text \<open>The rounding is a fact of the hardware and is not evaluated as code.\<close>

declare round64_def [code del]

definition fadd :: "real \<Rightarrow> real \<Rightarrow> real" where
  "fadd a b = round64 (a + b)"

definition fsub :: "real \<Rightarrow> real \<Rightarrow> real" where
  "fsub a b = round64 (a - b)"

definition fmul :: "real \<Rightarrow> real \<Rightarrow> real" where
  "fmul a b = round64 (a * b)"

definition fdiv :: "real \<Rightarrow> real \<Rightarrow> real" where
  "fdiv a b = round64 (a / b)"

section \<open>The host\<close>

text \<open>
  What the engine takes from its platform and the repository does not define:
  Unicode normalisation (\<open>String.prototype.normalize("NFKC")\<close>), the SHA-256
  digest of the UTF-8 encoding of a string (\<open>crypto.subtle.digest\<close> after
  \<open>TextEncoder\<close>), \<open>path.extname\<close>, and the functions \<open>Math.sqrt\<close>,
  \<open>Math.pow\<close> and \<open>Math.hypot\<close>, whose results ECMAScript leaves to the
  implementation as approximations.
\<close>

record host =
  nfkc :: "string \<Rightarrow> string"
  digest :: "string \<Rightarrow> 8 word list"
  extname :: "string \<Rightarrow> string"
  math_sqrt :: "real \<Rightarrow> real"
  math_pow :: "real \<Rightarrow> real \<Rightarrow> real"
  math_hypot :: "real \<Rightarrow> real \<Rightarrow> real"

section \<open>Utilities\<close>

text \<open>
  \<open>normalizeText\<close>: the normalisation of the host, then the six
  replacements in their order (\<open>rewrite_text\<close>).
\<close>

definition obfuscated :: "string \<Rightarrow> rx" where
  "obfuscated w = seqs [star (Cls is_space), liti w, star (Cls is_space)]"

definition rewrite_text :: "string \<Rightarrow> string" where
  "rewrite_text s0 =
     (let s = replace_all (obfuscated ''[at]'') ''@'' (replace_all (obfuscated ''(at)'') ''@'' s0);
          s = replace_all (obfuscated ''[dot]'') ''.'' (replace_all (obfuscated ''(dot)'') ''.'' s);
          s = replace_all (Cls (\<lambda>c. c = CHR 0x0D)) []
                (replace_all (plus1 (Cls (\<lambda>c. c = CHR '' '' \<or> c = CHR 0x09))) '' '' s)
      in s)"

definition normalizeText :: "host \<Rightarrow> string \<Rightarrow> string" where
  "normalizeText H input = rewrite_text (nfkc H input)"

text \<open>\<open>b.toString(16).padStart(2, "0")\<close> for a byte.\<close>

definition hex_digit :: "nat \<Rightarrow> char" where
  "hex_digit n = ''0123456789abcdef'' ! (n mod 16)"

definition hex2 :: "8 word \<Rightarrow> string" where
  "hex2 b = [hex_digit (unat b div 16), hex_digit (unat b mod 16)]"

definition sha256Hex :: "host \<Rightarrow> string \<Rightarrow> string" where
  "sha256Hex H s = concat (map hex2 (digest H s))"

text \<open>\<open>kind.toUpperCase()\<close> of the ten kinds.\<close>

fun kind_upper :: "Kind \<Rightarrow> string" where
  "kind_upper Email = ''EMAIL''"
| "kind_upper Phone = ''PHONE''"
| "kind_upper Url = ''URL''"
| "kind_upper Linkedin = ''LINKEDIN''"
| "kind_upper Github = ''GITHUB''"
| "kind_upper Address = ''ADDRESS''"
| "kind_upper Id = ''ID''"
| "kind_upper Name = ''NAME''"
| "kind_upper Org = ''ORG''"
| "kind_upper Loc = ''LOC''"

definition makeTag :: "host \<Rightarrow> Kind \<Rightarrow> string \<Rightarrow> string" where
  "makeTag H k v = (let h = take 8 (sha256Hex H v) in ''[['' @ kind_upper k @ '':'' @ h @ '']]'')"

text \<open>
  \<open>t.slice(a, b)\<close> with integer arguments: a negative index counts from the
  end, both are clamped into the string.
\<close>

definition slice :: "string \<Rightarrow> int \<Rightarrow> int \<Rightarrow> string" where
  "slice t a b =
     (let n = int (length t);
          from = (if a < 0 then max (n + a) 0 else min a n);
          to = (if b < 0 then max (n + b) 0 else min b n)
      in take (nat (to - from)) (drop (nat from) t))"

definition slice_from :: "string \<Rightarrow> int \<Rightarrow> string" where
  "slice_from t a = slice t a (int (length t))"

section \<open>The regex layer\<close>

definition is_alpha :: "char \<Rightarrow> bool" where
  "is_alpha c = (is_AZ c \<or> is_az c)"

definition is_alnum :: "char \<Rightarrow> bool" where
  "is_alnum c = (is_alpha c \<or> is_digit c)"

text \<open>
  The table \<open>R\<close>. Under the flag \<open>i\<close> a class of ASCII letters holds both
  cases and nothing else, and a literal letter matches both cases.
\<close>

definition R_email :: rx where
  "R_email = seqs
     [WordB,
      plus1 (Cls (\<lambda>c. is_alnum c \<or> c \<in> set ''._%+-'')),
      ch CHR ''@'',
      plus1 (Cls (\<lambda>c. is_alnum c \<or> c \<in> set ''.-'')),
      ch CHR ''.'',
      Rep 2 None (Cls is_alpha),
      WordB]"

definition R_phone :: rx where
  "R_phone = seqs
     [opt (ch CHR ''+''),
      Rep 1 (Some 2) (Cls is_digit),
      opt (Cls (\<lambda>c. is_space c \<or> c = CHR ''-'')),
      opt (ch CHR ''(''),
      Rep 2 (Some 2) (Cls is_digit),
      opt (ch CHR '')''),
      opt (Cls (\<lambda>c. is_space c \<or> c = CHR ''-'')),
      Rep 3 (Some 1) (Cls is_digit),
      WordB]"

definition R_url :: rx where
  "R_url = seqs
     [WordB, liti ''http'', opt (chi CHR ''s''), lit ''://'',
      plus1 (Cls (\<lambda>c. \<not> is_space c \<and> c \<noteq> CHR '')''))]"

definition R_linkedin :: rx where
  "R_linkedin = seqs
     [WordB, liti ''linkedin.com/in/'', plus1 (Cls (\<lambda>c. is_alnum c \<or> c \<in> set ''._-''))]"

definition R_github :: rx where
  "R_github = seqs
     [WordB, liti ''github.com/'', plus1 (Cls (\<lambda>c. is_alnum c \<or> c \<in> set ''._-''))]"

definition R_address :: rx where
  "R_address = seqs
     [WordB,
      Rep 1 (Some 4) (Cls is_digit),
      plus1 (Cls is_space),
      Cls is_alpha,
      plus1 (Cls (\<lambda>c. is_alpha c \<or> is_space c \<or> c = CHR ''.'')),
      alts (map liti [''Ave'', ''Avenue'', ''St'', ''Street'', ''Rd'', ''Road'', ''Blvd'', ''Drive'', ''Dr'']),
      WordB]"

definition R_id :: rx where
  "R_id = seqs
     [WordB,
      alts (map liti [''SSN'', ''SIN'', ''NIN'', ''PAN'', ''AADHAAR'']),
      opt (Cls (\<lambda>c. c = CHR '':'' \<or> is_space c \<or> c = CHR ''#'' \<or> c = CHR ''-'')),
      Rep 4 None (Cls (\<lambda>c. is_alnum c \<or> c = CHR ''-'')),
      WordB]"

text \<open>
  The closure \<open>scan\<close> of \<open>findRegexSpans\<close>: one span per match, \<open>m[0]\<close> being
  the text between \<open>m.index\<close> and the end of the match.
\<close>

definition scan :: "string \<Rightarrow> Kind \<Rightarrow> rx \<Rightarrow> Span list" where
  "scan t k re =
     map (\<lambda>(s, e). \<lparr>start = int s, endp = int e, value = take (e - s) (drop s t),
                     kind = k, source = Some Regex, score = None\<rparr>)
         (scan_from re t 0)"

definition findRegexSpans :: "string \<Rightarrow> Span list" where
  "findRegexSpans t =
     sort_by (\<lambda>a b. real_of_int (start a - start b))
       (scan t Email R_email @ scan t Phone R_phone @ scan t Url R_url
        @ scan t Linkedin R_linkedin @ scan t Github R_github
        @ scan t Address R_address @ scan t Id R_id)"

section \<open>The layout name detector\<close>

text \<open>
  The type \<open>LayoutLine\<close>. Its fields \<open>text\<close>, \<open>x\<close>, \<open>y\<close> and \<open>score\<close> are
  called \<open>line_text\<close>, \<open>line_x\<close>, \<open>line_y\<close> and \<open>line_score\<close>; its numbers
  are doubles.
\<close>

record LayoutLine =
  line_text :: string
  line_y :: real
  line_x :: real
  width :: real
  maxFont :: real
  avgFont :: real
  centered :: bool
  bold :: bool
  tokenCount :: nat
  hasDigits :: bool
  hasEmailOrPhone :: bool
  line_score :: "real option"

text \<open>\<open>s.trim()\<close> removes white space and line terminators at both ends.\<close>

definition trim :: "string \<Rightarrow> string" where
  "trim s = rev (dropWhile is_space (rev (dropWhile is_space s)))"

text \<open>\<open>toLowerCase\<close> on code units below 256: \<open>A-Z\<close> and the Latin-1 capitals.\<close>

definition lower_char :: "char \<Rightarrow> char" where
  "lower_char c =
     (if is_AZ c \<or> (192 \<le> code c \<and> code c \<le> 222 \<and> code c \<noteq> 215)
      then char_of (code c + 32) else c)"

definition toLowerCase :: "string \<Rightarrow> string" where
  "toLowerCase s = map lower_char s"

definition headers :: "string list" where
  "headers =
     [''resume'', ''curriculum vitae'', ''cv'', ''summary'', ''experience'',
      ''work experience'', ''education'', ''skills'', ''projects'', ''certifications'',
      ''publications'', ''contact'', ''profile'', ''objective'']"

definition startsWith :: "string \<Rightarrow> string \<Rightarrow> bool" where
  "startsWith h p = (take (length p) h = p)"

definition looksLikeHeader :: "string \<Rightarrow> bool" where
  "looksLikeHeader s =
     (let h = toLowerCase (trim s)
      in list_ex (\<lambda>w. h = w \<or> startsWith h (w @ '' '')) headers)"

text \<open>
  \<open>\p{L}\<close> below 256, and the code units that \<open>toUpperCase\<close> changes
  (a string equals its upper-case form when it has none of them).
\<close>

definition is_letter :: "char \<Rightarrow> bool" where
  "is_letter c =
     (is_AZ c \<or> is_az c \<or> code c \<in> {170, 181, 186}
      \<or> (192 \<le> code c \<and> code c \<noteq> 215 \<and> code c \<noteq> 247))"

definition upper_changes :: "char \<Rightarrow> bool" where
  "upper_changes c = (is_az c \<or> code c = 181 \<or> (223 \<le> code c \<and> code c \<noteq> 247))"

text \<open>\<open>/^[\p{L}\s'.-]+$/u.test(l.text) && l.text === l.text.toUpperCase()\<close>.\<close>

definition allCaps :: "string \<Rightarrow> bool" where
  "allCaps s =
     (s \<noteq> [] \<and> list_all (\<lambda>c. is_letter c \<or> is_space c \<or> c \<in> set [CHR 0x27, CHR ''.'', CHR ''-'']) s
      \<and> list_all (\<lambda>c. \<not> upper_changes c) s)"

text \<open>The score of a candidate, which the \<open>map\<close> before the sort has set.\<close>

definition score_of :: "LayoutLine \<Rightarrow> real" where
  "score_of l = (case line_score l of Some v \<Rightarrow> v | None \<Rightarrow> 0)"

text \<open>
  The callback of the \<open>map\<close>: the line with its score. The sum is
  evaluated from the left, each operation rounded.
\<close>

definition scored :: "real \<Rightarrow> real \<Rightarrow> (real \<Rightarrow> real) \<Rightarrow> LayoutLine \<Rightarrow> LayoutLine" where
  "scored topY bottomY z l =
     (let yTopPct = fdiv (fsub topY (line_y l)) (fadd (fsub topY bottomY) (round64 (1 / 1000000)));
          allCaps' = allCaps (line_text l);
          score0 = fsub (fadd (fadd (fmul (round64 (25 / 10)) (z (maxFont l)))
                                    (if centered l then round64 (12 / 10) else 0))
                              (if bold l then round64 (6 / 10) else 0))
                        (fmul 1 yTopPct);
          score1 = (if tokenCount l \<ge> 2 \<and> tokenCount l \<le> 4
                    then fadd score0 (round64 (4 / 10)) else score0);
          score2 = (if allCaps' then fsub score1 (round64 (2 / 10)) else score1)
      in l\<lparr>line_score := Some score2\<rparr>)"

definition chooseNameCandidate :: "host \<Rightarrow> LayoutLine list \<Rightarrow> LayoutLine option" where
  "chooseNameCandidate H firstPageLines =
     (if firstPageLines = [] then None
      else
        let topY = Max (set (map line_y firstPageLines));
            bottomY = Min (set (map line_y firstPageLines));
            meanF = fdiv (foldl (\<lambda>s l. fadd s (maxFont l)) 0 firstPageLines)
                         (real (length firstPageLines));
            stdF = math_sqrt H
                     (fdiv (foldl (\<lambda>s l. fadd s (math_pow H (fsub (maxFont l) meanF) 2)) 0
                              firstPageLines)
                           (real (max 1 (length firstPageLines))));
            z = (\<lambda>f. if stdF > 0 then fdiv (fsub f meanF) stdF else 0);
            candidates =
              sort_by (\<lambda>a b. fsub (score_of b) (score_of a))
                (map (scored topY bottomY z)
                   (filter (\<lambda>l. \<not> looksLikeHeader (line_text l))
                     (filter (\<lambda>l. \<not> hasDigits l \<and> \<not> hasEmailOrPhone l)
                       (filter (\<lambda>l. tokenCount l \<ge> 1 \<and> tokenCount l \<le> 5) firstPageLines))))
        in case candidates of [] \<Rightarrow> None | c # _ \<Rightarrow> Some c)"

text \<open>\<open>s.split(/\s+/)\<close>: the pieces between the runs of white space, empty ones at the ends included.\<close>

function split_ws :: "string \<Rightarrow> string list" where
  "split_ws s =
     (let tok = takeWhile (\<lambda>c. \<not> is_space c) s;
          rest = dropWhile (\<lambda>c. \<not> is_space c) s
      in if rest = [] then [tok] else tok # split_ws (dropWhile is_space rest))"
  by pat_completeness auto
termination
proof (relation "measure length")
  show "wf (measure length)" by simp
next
  fix s :: string and tok rest
  assume rest: "rest = dropWhile (\<lambda>c. \<not> is_space c) s" and ne: "rest \<noteq> []"
  from ne obtain c cs where cs: "rest = c # cs" by (cases rest) auto
  have "is_space (hd rest)"
    using ne hd_dropWhile [of "\<lambda>c. \<not> is_space c" s] unfolding rest by simp
  then have "dropWhile is_space rest = dropWhile is_space cs" by (simp add: cs)
  moreover have "length (dropWhile is_space cs) \<le> length cs" by (rule length_dropWhile_le)
  ultimately have "length (dropWhile is_space rest) < length rest" by (simp add: cs)
  also have "length rest \<le> length s" unfolding rest by (rule length_dropWhile_le)
  finally show "(dropWhile is_space rest, s) \<in> measure length" by simp
qed

declare split_ws.simps [simp del]

text \<open>
  The pattern that \<open>locateCandidateInNormalized\<close> builds: \<open>escapeRegex\<close> makes
  each character of a token literal, the tokens are joined by \<open>\s+\<close>, and the
  flag is \<open>i\<close>.
\<close>

fun join_ws :: "rx list \<Rightarrow> rx" where
  "join_ws [] = Eps"
| "join_ws [r] = r"
| "join_ws (r # rs) = Seq r (Seq (plus1 (Cls is_space)) (join_ws rs))"

definition locateCandidateInNormalized :: "host \<Rightarrow> string \<Rightarrow> string \<Rightarrow> (int \<times> int) option" where
  "locateCandidateInNormalized H normalizedText candidateRaw =
     (let candNorm = normalizeText H candidateRaw;
          re = join_ws (map liti (split_ws (trim candNorm)))
      in case find_from re normalizedText 0 of
           None \<Rightarrow> None
         | Some (s, e) \<Rightarrow> Some (int s, int e))"

section \<open>PDF text and layout\<close>

text \<open>
  What pdfjs yields for a document: the text items of each page, in order, and
  the width of the viewport of the first page at scale 1. An item without
  \<open>str\<close> has the empty string here; \<open>transform\<close> holds the six numbers of
  the matrix.
\<close>

record PdfItem =
  str :: string
  transform :: "(real \<times> real \<times> real \<times> real \<times> real \<times> real) option"
  fontName :: "string option"

record PdfDoc =
  pages :: "PdfItem list list"
  viewport_width :: real

text \<open>\<open>fontSizeFromTransform\<close>, with \<open>Math.hypot\<close> of the host.\<close>

fun fontSizeFromTransform ::
  "host \<Rightarrow> real \<times> real \<times> real \<times> real \<times> real \<times> real \<Rightarrow> real" where
  "fontSizeFromTransform H (t0, t1, t2, t3, t4, t5) = max (math_hypot H t0 t1) (math_hypot H t2 t3)"

text \<open>\<open>s.includes(w)\<close>.\<close>

fun includes_str :: "string \<Rightarrow> string \<Rightarrow> bool" where
  "includes_str [] w = (w = [])"
| "includes_str (c # cs) w = (startsWith (c # cs) w \<or> includes_str cs w)"

definition isBoldFontName :: "string \<Rightarrow> bool" where
  "isBoldFontName name =
     (let n = toLowerCase name
      in includes_str n ''bold'' \<or> includes_str n ''semibold'' \<or> includes_str n ''demi'' \<or> includes_str n ''black'')"

text \<open>The patterns \<open>emailRe\<close> and \<open>phoneRe\<close>, and \<open>re.test(s)\<close> for a pattern that is not global.\<close>

definition emailRe :: rx where
  "emailRe = seqs
     [WordB,
      plus1 (Cls (\<lambda>c. is_alnum c \<or> c \<in> set ''._%+-'')),
      ch CHR ''@'',
      plus1 (Cls (\<lambda>c. is_alnum c \<or> c \<in> set ''.-'')),
      ch CHR ''.'',
      Rep 2 None (Cls is_alpha),
      WordB]"

definition phoneRe :: rx where
  "phoneRe = seqs
     [opt (ch CHR ''+''),
      Cls is_digit,
      Rep 5 None (Cls (\<lambda>c. is_digit c \<or> c \<in> set ''()'' \<or> is_space c \<or> c \<in> set ''.-''))]"

definition test :: "rx \<Rightarrow> string \<Rightarrow> bool" where
  "test re s = (find_from re s 0 \<noteq> None)"

text \<open>\<open>xs.join(" ")\<close>.\<close>

fun join_sp :: "string list \<Rightarrow> string" where
  "join_sp [] = []"
| "join_sp [x] = x"
| "join_sp (x # xs) = x @ '' '' @ join_sp xs"

text \<open>The objects pushed into \<open>byY\<close>, and the rounded baseline that is their key.\<close>

record Run =
  run_str :: string
  run_x :: real
  run_y :: real
  run_fs :: real
  run_fontName :: "string option"

definition to_run :: "host \<Rightarrow> PdfItem \<Rightarrow> Run option" where
  "to_run H it =
     (if str it = [] then None
      else case transform it of
             None \<Rightarrow> None
           | Some (t0, t1, t2, t3, t4, t5) \<Rightarrow>
               Some \<lparr>run_str = str it, run_x = t4, run_y = t5,
                     run_fs = fontSizeFromTransform H (t0, t1, t2, t3, t4, t5),
                     run_fontName = fontName it\<rparr>)"

text \<open>\<open>Math.round(y)\<close>.\<close>

definition key_of :: "Run \<Rightarrow> int" where
  "key_of r = \<lfloor>run_y r + 1 / 2\<rfloor>"

text \<open>The body of the loop over the keys: the line of the runs of one baseline, unless its text is empty.\<close>

definition make_line :: "real \<Rightarrow> int \<Rightarrow> Run list \<Rightarrow> LayoutLine option" where
  "make_line vw ky runs0 =
     (let runs = sort_by (\<lambda>a b. fsub (run_x a) (run_x b)) runs0;
          text' = trim (replace_all (plus1 (Cls is_space)) '' '' (join_sp (map run_str runs)))
      in if text' = [] then None
         else
           let maxFont' = Max (set (map run_fs runs));
               avgFont' = fdiv (foldl (\<lambda>s r. fadd s (run_fs r)) 0 runs) (real (length runs));
               xMin = run_x (hd runs);
               xMax = run_x (last runs);
               width' = max 0 (fsub xMax xMin);
               pageCenter = fdiv vw 2;
               lineCenter = fadd xMin (fdiv width' 2);
               centered' = (\<bar>fsub lineCenter pageCenter\<bar> < fmul vw (round64 (15 / 100)));
               bold' = list_ex (\<lambda>r. case run_fontName r of
                                       None \<Rightarrow> False
                                     | Some n \<Rightarrow> n \<noteq> [] \<and> isBoldFontName n) runs;
               tokenCount' = length (filter (\<lambda>w. w \<noteq> []) (split_ws (trim text')));
               hasDigits' = list_ex is_digit text';
               hasEmailOrPhone' = (test emailRe text' \<or> test phoneRe text')
           in Some \<lparr>line_text = text', line_y = real_of_int ky, line_x = xMin, width = width',
                    maxFont = maxFont', avgFont = avgFont', centered = centered', bold = bold',
                    tokenCount = tokenCount', hasDigits = hasDigits',
                    hasEmailOrPhone = hasEmailOrPhone', line_score = None\<rparr>)"

text \<open>
  The lines of the first page: the runs grouped by rounded baseline, the
  baselines from the top down. The keys are distinct, so their order before
  the sort does not matter.
\<close>

definition layout_lines :: "host \<Rightarrow> real \<Rightarrow> PdfItem list \<Rightarrow> LayoutLine list" where
  "layout_lines H vw items1 =
     (let runs = List.map_filter (to_run H) items1;
          keys = sort_by (\<lambda>a b. real_of_int (b - a)) (remdups (map key_of runs))
      in List.map_filter (\<lambda>ky. make_line vw ky (filter (\<lambda>r. key_of r = ky) runs)) keys)"

text \<open>The text of all pages: the items of a page joined by blanks, a line feed after each page.\<close>

definition full_text :: "PdfItem list list \<Rightarrow> string" where
  "full_text ps = concat (map (\<lambda>items. join_sp (map str items) @ [CHR 0x0A]) ps)"

section \<open>The redaction engine\<close>

text \<open>
  \<open>defaultModes\<close>, and the lookup \<open>modes[s.kind] ?? defaultModes[s.kind] ?? "hash"\<close>.
  A \<open>RedactionConfig\<close> is a partial table.
\<close>

fun defaultModes :: "Kind \<Rightarrow> RedactionMode option" where
  "defaultModes Email = Some Hash"
| "defaultModes Phone = Some Hash"
| "defaultModes Url = Some Hash"
| "defaultModes Linkedin = Some Hash"
| "defaultModes Github = Some Hash"
| "defaultModes Address = Some Mask"
| "defaultModes Id = Some Drop"
| "defaultModes Name = Some Mask"
| "defaultModes Org = Some Mask"
| "defaultModes Loc = Some Mask"

definition mode_of :: "(Kind \<Rightarrow> RedactionMode option) \<Rightarrow> Kind \<Rightarrow> RedactionMode" where
  "mode_of modes k =
     (case modes k of
        Some m \<Rightarrow> m
      | None \<Rightarrow> (case defaultModes k of Some m \<Rightarrow> m | None \<Rightarrow> Hash))"

datatype error = RangeError | ReadError | PdfError | FlaggerError | WriteError

text \<open>
  The loop of \<open>applyRedaction\<close> with its variables \<open>out\<close> and \<open>last\<close>.
  \<open>"*".repeat(n)\<close> throws a RangeError for a negative \<open>n\<close>.
\<close>

fun redact_loop ::
  "host \<Rightarrow> string \<Rightarrow> (Kind \<Rightarrow> RedactionMode option) \<Rightarrow> Span list \<Rightarrow> string \<Rightarrow> int
   \<Rightarrow> error + string \<times> int" where
  "redact_loop H t modes [] out pos = Inr (out, pos)"
| "redact_loop H t modes (s # spans) out pos =
     (let out1 = out @ slice t pos (start s)
      in case mode_of modes (kind s) of
           Drop \<Rightarrow> redact_loop H t modes spans out1 (endp s)
         | Mask \<Rightarrow>
             if endp s - start s < 0 then Inl RangeError
             else redact_loop H t modes spans
                    (out1 @ replicate (nat (endp s - start s)) CHR ''*'') (endp s)
         | Hash \<Rightarrow> redact_loop H t modes spans (out1 @ makeTag H (kind s) (value s)) (endp s))"

definition applyRedaction ::
  "host \<Rightarrow> string \<Rightarrow> Span list \<Rightarrow> (Kind \<Rightarrow> RedactionMode option) \<Rightarrow> error + string" where
  "applyRedaction H t spans modes =
     (case redact_loop H t modes spans [] 0 of
        Inl e \<Rightarrow> Inl e
      | Inr (out, pos) \<Rightarrow> Inr (out @ slice_from t pos))"

section \<open>The main entry point\<close>

record Proposal =
  p_start :: int
  p_end :: int
  label :: Kind
  p_score :: "real option"

text \<open>An \<open>LLMFlagger\<close>; \<open>flag\<close> returns its proposals or fails (a rejected promise or a throw).\<close>

record LLMFlagger =
  flagger_name :: string
  flag :: "string \<Rightarrow> error + Proposal list"

record Options =
  outBase :: "string option"
  modes :: "Kind \<Rightarrow> RedactionMode option"
  useNER :: "bool option"
  flagger :: "LLMFlagger option"
  previewLimit :: "int option"
  detectNameFromLayout :: "bool option"

record Candidate_info =
  c_text :: string
  c_score :: "real option"
  c_y :: real
  c_maxFont :: real
  c_centered :: bool
  c_bold :: bool

text \<open>The object that is serialised into the report file.\<close>

record Report =
  report_counts :: "Kind \<Rightarrow> nat option"
  file_hash_sha256 :: string
  report_modes :: "Kind \<Rightarrow> RedactionMode option"
  total_spans :: nat
  layout_name_candidate :: "Candidate_info option"
  preview :: "Span list"

record Result =
  redactedText :: string
  fileHashSha256 :: string
  hits :: "Span list"
  counts :: "Kind \<Rightarrow> nat option"
  outRedactedPath :: "string option"
  outReportPath :: "string option"

datatype file_content = Text_file string | Json_file Report

type_synonym disk = "string \<Rightarrow> file_content option"

text \<open>
  The world of one invocation: what \<open>fs.readFile(path, "utf8")\<close> yields for a
  path, what pdfjs yields for the bytes of a path (or the failure of the read
  or of pdfjs), and whether \<open>fs.writeFile\<close> succeeds on a path. The disk maps
  the paths written to their content; a failing write is taken to leave it as
  it was.
\<close>

record world =
  readFile :: "string \<Rightarrow> error + string"
  loadPdf :: "string \<Rightarrow> error + PdfDoc"
  writable :: "string \<Rightarrow> bool"

text \<open>\<open>pdfExtractWithLayout\<close>; a document has a first page, or \<open>getPage(1)\<close> fails.\<close>

definition pdfExtractWithLayout ::
  "host \<Rightarrow> world \<Rightarrow> string \<Rightarrow> error + string \<times> LayoutLine list \<times> real" where
  "pdfExtractWithLayout H W pdfPath =
     (case loadPdf W pdfPath of
        Inl e \<Rightarrow> Inl e
      | Inr doc \<Rightarrow>
          (case pages doc of
             [] \<Rightarrow> Inl PdfError
           | items1 # _ \<Rightarrow>
               Inr (full_text (pages doc), layout_lines H (viewport_width doc) items1,
                    viewport_width doc)))"

definition writeFile ::
  "world \<Rightarrow> disk \<Rightarrow> string \<Rightarrow> file_content \<Rightarrow> error + disk" where
  "writeFile W d p c = (if writable W p then Inr (d(p \<mapsto> c)) else Inl WriteError)"

text \<open>\<open>filePath.replace(/\.[^.]+$/, "")\<close>: the first match only.\<close>

definition strip_ext :: "string \<Rightarrow> string" where
  "strip_ext p =
     (case find_from (seqs [ch CHR ''.'', plus1 (Cls (\<lambda>c. c \<noteq> CHR ''.'')), EndT]) p 0 of
        None \<Rightarrow> p
      | Some (s, e) \<Rightarrow> take s p @ drop e p)"

text \<open>Step 1: the text and, for a PDF, the name candidate.\<close>

definition extract_text :: "host \<Rightarrow> world \<Rightarrow> string \<Rightarrow> bool \<Rightarrow> error + string \<times> LayoutLine option" where
  "extract_text H W filePath detectName =
     (if toLowerCase (extname H filePath) = ''.pdf'' then
        (case pdfExtractWithLayout H W filePath of
           Inl e \<Rightarrow> Inl e
         | Inr (t, firstPageLines, viewportWidth) \<Rightarrow>
             Inr (t, if detectName then chooseNameCandidate H firstPageLines else None))
      else
        (case readFile W filePath of
           Inl e \<Rightarrow> Inl e
         | Inr t \<Rightarrow> Inr (t, None)))"

text \<open>Step 4: the name span of the layout candidate.\<close>

definition layout_spans :: "host \<Rightarrow> string \<Rightarrow> LayoutLine option \<Rightarrow> Span list" where
  "layout_spans H normalized layoutCandidate =
     (case layoutCandidate of
        None \<Rightarrow> []
      | Some c \<Rightarrow>
          if line_text c = [] then []
          else (case locateCandidateInNormalized H normalized (line_text c) of
                  None \<Rightarrow> []
                | Some (s, e) \<Rightarrow>
                    [\<lparr>start = s, endp = e, value = slice normalized s e, kind = Name,
                      source = Some Layout, score = line_score c\<rparr>]))"

text \<open>Step 5: the spans of the flagger; a failure of \<open>flag\<close> is caught and skipped.\<close>

definition flagger_span :: "string \<Rightarrow> Proposal \<Rightarrow> Span list" where
  "flagger_span normalized f =
     (let start' = max 0 (min (int (length normalized)) (p_start f));
          end' = max start' (min (int (length normalized)) (p_end f))
      in if end' > start'
         then [\<lparr>start = start', endp = end', value = slice normalized start' end',
                kind = label f, source = Some Flagger, score = p_score f\<rparr>]
         else [])"

definition flagger_spans :: "string \<Rightarrow> LLMFlagger option \<Rightarrow> Span list" where
  "flagger_spans normalized fl =
     (case fl of
        None \<Rightarrow> []
      | Some F \<Rightarrow>
          (case flag F normalized of
             Inl e \<Rightarrow> []
           | Inr flagged \<Rightarrow> concat (map (flagger_span normalized) flagged)))"

text \<open>Steps 3 to 5: the array \<open>spans\<close> before it is merged.\<close>

definition collect_spans :: "host \<Rightarrow> string \<Rightarrow> LayoutLine option \<Rightarrow> LLMFlagger option \<Rightarrow> Span list" where
  "collect_spans H normalized layoutCandidate fl =
     findRegexSpans normalized @ layout_spans H normalized layoutCandidate
     @ flagger_spans normalized fl"

text \<open>Step 7: \<open>counts[s.kind] = (counts[s.kind] || 0) + 1\<close> for each span.\<close>

definition count_step :: "(Kind \<Rightarrow> nat option) \<Rightarrow> Span \<Rightarrow> Kind \<Rightarrow> nat option" where
  "count_step c s = c(kind s \<mapsto> (case c (kind s) of None \<Rightarrow> 0 | Some n \<Rightarrow> n) + 1)"

definition count_kinds :: "Span list \<Rightarrow> Kind \<Rightarrow> nat option" where
  "count_kinds spans = foldl count_step Map.empty spans"

definition candidate_info :: "LayoutLine \<Rightarrow> Candidate_info" where
  "candidate_info c =
     \<lparr>c_text = line_text c, c_score = line_score c, c_y = line_y c, c_maxFont = maxFont c,
      c_centered = centered c, c_bold = bold c\<rparr>"

text \<open>\<open>spans.slice(0, n)\<close>, as \<open>slice\<close> on strings.\<close>

definition slice_list :: "'a list \<Rightarrow> int \<Rightarrow> int \<Rightarrow> 'a list" where
  "slice_list xs a b =
     (let n = int (length xs);
          from = (if a < 0 then max (n + a) 0 else min a n);
          to = (if b < 0 then max (n + b) 0 else min b n)
      in take (nat (to - from)) (drop (nat from) xs))"

text \<open>\<open>opts.outBase ?? filePath.replace(/\.[^.]+$/, "")\<close>.\<close>

definition out_base :: "Options \<Rightarrow> string \<Rightarrow> string" where
  "out_base opts filePath = (case outBase opts of Some b \<Rightarrow> b | None \<Rightarrow> strip_ext filePath)"

text \<open>The object given to \<open>JSON.stringify\<close>.\<close>

definition make_report ::
  "Options \<Rightarrow> (Kind \<Rightarrow> nat option) \<Rightarrow> string \<Rightarrow> (Kind \<Rightarrow> RedactionMode option) \<Rightarrow> Span list
   \<Rightarrow> LayoutLine option \<Rightarrow> Report" where
  "make_report opts counts' fileHash modes' spans layoutCandidate =
     \<lparr>report_counts = counts', file_hash_sha256 = fileHash, report_modes = modes',
      total_spans = length spans,
      layout_name_candidate = map_option candidate_info layoutCandidate,
      preview = slice_list spans 0 (case previewLimit opts of Some n \<Rightarrow> n | None \<Rightarrow> 12)\<rparr>"

definition redactResumeFile ::
  "host \<Rightarrow> world \<Rightarrow> string \<Rightarrow> Options \<Rightarrow> disk \<Rightarrow> (error + Result) \<times> disk" where
  "redactResumeFile H W filePath opts d =
     (let base = out_base opts filePath;
          detectName = (detectNameFromLayout opts \<noteq> Some False)
      in case extract_text H W filePath detectName of
           Inl e \<Rightarrow> (Inl e, d)
         | Inr (rawText, layoutCandidate) \<Rightarrow>
             let normalized = normalizeText H rawText;
                 spans = mergeAndDedupe (collect_spans H normalized layoutCandidate (flagger opts));
                 modes' = defaultModes ++ modes opts
             in case applyRedaction H normalized spans modes' of
                  Inl e \<Rightarrow> (Inl e, d)
                | Inr redacted \<Rightarrow>
                    let counts' = count_kinds spans;
                        fileHash = sha256Hex H rawText;
                        redactedPath = base @ ''.redacted.txt'';
                        reportPath = base @ ''.pii.report.json'';
                        report = make_report opts counts' fileHash modes' spans layoutCandidate
                    in case writeFile W d redactedPath (Text_file redacted) of
                         Inl e \<Rightarrow> (Inl e, d)
                       | Inr d1 \<Rightarrow>
                           (case writeFile W d1 reportPath (Json_file report) of
                              Inl e \<Rightarrow> (Inl e, d1)
                            | Inr d2 \<Rightarrow>
                                (Inr \<lparr>redactedText = redacted, fileHashSha256 = fileHash,
                                      hits = spans, counts = counts',
                                      outRedactedPath = Some redactedPath,
                                      outReportPath = Some reportPath\<rparr>, d2)))"

section \<open>Notions of the specification and of the proofs\<close>

text \<open>\<open>t[a:b]\<close> for offsets inside the text.\<close>

definition substring :: "string \<Rightarrow> int \<Rightarrow> int \<Rightarrow> string" where
  "substring t a b = take (nat b - nat a) (drop (nat a) t)"

text \<open>Span validity: \<open>0 <= start < end <= len(text)\<close> and \<open>value == text[start:end]\<close>.\<close>

definition span_ok :: "string \<Rightarrow> Span \<Rightarrow> bool" where
  "span_ok t s =
     (0 \<le> start s \<and> start s < endp s \<and> endp s \<le> int (length t)
      \<and> value s = substring t (start s) (endp s))"






text \<open>
  The invariant of the loop of \<open>mergeAndDedupe\<close>: the accepted spans are
  disjoint and ascending, and none of them starts after a span still to come.
\<close>

definition resolve_inv :: "Span list \<Rightarrow> Span list \<Rightarrow> bool" where
  "resolve_inv out rest =
     (successively (\<lambda>a b. endp a \<le> start b) out \<and> sorted (map start out)
      \<and> (\<forall>a \<in> set out. \<forall>s \<in> set rest. start a \<le> start s))"

text \<open>A string with a character that is not white space.\<close>

definition visible :: "string \<Rightarrow> bool" where
  "visible s = list_ex (\<lambda>c. \<not> is_space c) s"

text \<open>The least length of a match, and the patterns whose classes lie within a set of characters.\<close>

fun minlen :: "rx \<Rightarrow> nat" where
  "minlen (Cls p) = 1"
| "minlen Eps = 0"
| "minlen WordB = 0"
| "minlen EndT = 0"
| "minlen (Seq a b) = minlen a + minlen b"
| "minlen (Alt a b) = min (minlen a) (minlen b)"
| "minlen (Rep lo extra r) = lo * minlen r"

fun only :: "(char \<Rightarrow> bool) \<Rightarrow> rx \<Rightarrow> bool" where
  "only P (Cls q) = (\<forall>c. q c \<longrightarrow> P c)"
| "only P Eps = True"
| "only P WordB = True"
| "only P EndT = True"
| "only P (Seq a b) = (only P a \<and> only P b)"
| "only P (Alt a b) = (only P a \<and> only P b)"
| "only P (Rep lo extra r) = only P r"

text \<open>
  The score of the layout name detector as the specification gives it, in the
  arithmetic of doubles: the mean and the standard deviation of the maximal
  font sizes of all lines (sums from the left, starting at 0), the z-score
  (zero when the deviation is zero), the vertical position as a fraction of
  the range of baselines, and the weighted sum with its two adjustments.
\<close>

definition fsum :: "real list \<Rightarrow> real" where
  "fsum xs = foldl fadd 0 xs"

definition font_mean :: "LayoutLine list \<Rightarrow> real" where
  "font_mean ls = fdiv (fsum (map maxFont ls)) (real (length ls))"

definition font_std :: "host \<Rightarrow> LayoutLine list \<Rightarrow> real" where
  "font_std H ls =
     math_sqrt H (fdiv (fsum (map (\<lambda>l. math_pow H (fsub (maxFont l) (font_mean ls)) 2) ls))
                       (real (length ls)))"

definition font_z :: "host \<Rightarrow> LayoutLine list \<Rightarrow> real \<Rightarrow> real" where
  "font_z H ls f = (if font_std H ls = 0 then 0 else fdiv (fsub f (font_mean ls)) (font_std H ls))"

definition top_fraction :: "LayoutLine list \<Rightarrow> LayoutLine \<Rightarrow> real" where
  "top_fraction ls l =
     fdiv (fsub (Max (line_y ` set ls)) (line_y l))
          (fadd (fsub (Max (line_y ` set ls)) (Min (line_y ` set ls))) (round64 (1 / 1000000)))"

text \<open>
  The texts that lose 0.2: made of letters that upper-casing leaves alone,
  white space, apostrophes, dots and hyphens, and not empty.
\<close>

definition caps_text :: "string \<Rightarrow> bool" where
  "caps_text s =
     (s \<noteq> [] \<and> list_all (\<lambda>c. is_letter c \<and> \<not> upper_changes c \<or> is_space c
                              \<or> c = CHR 0x27 \<or> c = CHR ''.'' \<or> c = CHR ''-'') s)"

definition spec_score :: "host \<Rightarrow> LayoutLine list \<Rightarrow> LayoutLine \<Rightarrow> real" where
  "spec_score H ls l =
     (let weighted = fsub (fadd (fadd (fmul (round64 (25 / 10)) (font_z H ls (maxFont l)))
                                      (if centered l then round64 (12 / 10) else 0))
                                (if bold l then round64 (6 / 10) else 0))
                          (fmul 1 (top_fraction ls l));
          with_tokens = (if 2 \<le> tokenCount l \<and> tokenCount l \<le> 4
                         then fadd weighted (round64 (4 / 10)) else weighted)
      in if caps_text (line_text l) then fsub with_tokens (round64 (2 / 10)) else with_tokens)"

text \<open>
  The texts in the wording of the specification: entirely upper-case letters,
  white space and punctuation, the punctuation being that of ASCII.
\<close>

definition is_punct :: "char \<Rightarrow> bool" where
  "is_punct c =
     (33 \<le> code c \<and> code c \<le> 47 \<or> 58 \<le> code c \<and> code c \<le> 64
      \<or> 91 \<le> code c \<and> code c \<le> 96 \<or> 123 \<le> code c \<and> code c \<le> 126)"

definition upper_case_text :: "string \<Rightarrow> bool" where
  "upper_case_text s =
     list_all (\<lambda>c. is_letter c \<and> \<not> upper_changes c \<or> is_space c \<or> is_punct c) s"

text \<open>The lines that pass the three filters, in their order.\<close>

definition survivors :: "LayoutLine list \<Rightarrow> LayoutLine list" where
  "survivors ls =
     filter (\<lambda>l. 1 \<le> tokenCount l \<and> tokenCount l \<le> 5 \<and> \<not> hasDigits l \<and> \<not> hasEmailOrPhone l
                 \<and> \<not> looksLikeHeader (line_text l)) ls"

section \<open>A sample host and world\<close>

text \<open>
  A host for ASCII text, which NFKC leaves as it is; its digest is a fixed
  block of 32 bytes, every path has the extension \<open>.txt\<close>, and its square
  root, power (for a natural exponent) and hypotenuse are correctly rounded. A second
  host has a digest that starts with the bytes \<open>de ad be ef\<close>. In the
  sample world every file reads as \<open>hi\<close>, two blanks, \<open>there\<close>, a carriage
  return and a line feed, and every path can be written; in the others every
  file reads as an e-mail address, the report cannot be written, or no file
  can be read.
\<close>

definition sqrt64 :: "real \<Rightarrow> real" where
  "sqrt64 x = round64 (sqrt x)"

definition pow64 :: "real \<Rightarrow> real \<Rightarrow> real" where
  "pow64 x y = round64 (x ^ nat \<lfloor>y\<rfloor>)"

definition hypot64 :: "real \<Rightarrow> real \<Rightarrow> real" where
  "hypot64 a b = round64 (sqrt (a ^ 2 + b ^ 2))"

declare sqrt64_def [code del] hypot64_def [code del]

definition ascii_host :: host where
  "ascii_host =
     \<lparr>nfkc = (\<lambda>s. s), digest = (\<lambda>s. replicate 32 0), extname = (\<lambda>p. ''.txt''),
      math_sqrt = sqrt64, math_pow = pow64, math_hypot = hypot64\<rparr>"


definition sample_world :: world where
  "sample_world =
     \<lparr>readFile = (\<lambda>p. Inr (''hi  there'' @ [CHR 0x0D, CHR 0x0A])), loadPdf = (\<lambda>p. Inl PdfError),
      writable = (\<lambda>p. True)\<rparr>"

definition mail_world :: world where
  "mail_world =
     \<lparr>readFile = (\<lambda>p. Inr ''a@b.cc''), loadPdf = (\<lambda>p. Inl PdfError),
      writable = (\<lambda>p. True)\<rparr>"

definition report_locked_world :: world where
  "report_locked_world =
     \<lparr>readFile = (\<lambda>p. Inr ''a@b.cc''), loadPdf = (\<lambda>p. Inl PdfError),
      writable = (\<lambda>p. p \<noteq> ''cv.pii.report.json'')\<rparr>"

definition unreadable_world :: world where
  "unreadable_world =
     \<lparr>readFile = (\<lambda>p. Inl ReadError), loadPdf = (\<lambda>p. Inl PdfError),
      writable = (\<lambda>p. True)\<rparr>"

definition mail_span :: Span where
  "mail_span =
     \<lparr>start = 0, endp = 6, value = ''a@b.cc'', kind = Email, source = Some Regex, score = None\<rparr>"

definition failing_flagger :: LLMFlagger where
  "failing_flagger = \<lparr>flagger_name = ''down'', flag = (\<lambda>t. Inl FlaggerError)\<rparr>"

text \<open>
  Two heading lines that differ in their text only, the first in capitals, a
  line of two capitals around a comma, a host that takes every path for a PDF, and a one-page PDF
  with a name in two runs above an e-mail address.
\<close>

definition jane_line :: LayoutLine where
  "jane_line =
     \<lparr>line_text = ''Jane Doe'', line_y = 700, line_x = 200, width = 100, maxFont = 18,
      avgFont = 18, centered = True, bold = True, tokenCount = 2, hasDigits = False,
      hasEmailOrPhone = False, line_score = None\<rparr>"

definition john_line :: LayoutLine where
  "john_line = jane_line\<lparr>line_text := ''John Roe''\<rparr>"

definition caps_line :: LayoutLine where
  "caps_line = jane_line\<lparr>line_text := ''JANE DOE''\<rparr>"

definition comma_line :: LayoutLine where
  "comma_line =
     \<lparr>line_text = ''A,B'', line_y = 700, line_x = 72, width = 0, maxFont = 18,
      avgFont = 18, centered = False, bold = False, tokenCount = 1, hasDigits = False,
      hasEmailOrPhone = False, line_score = None\<rparr>"

definition pdf_host :: host where
  "pdf_host = ascii_host\<lparr>extname := (\<lambda>p. ''.PDF'')\<rparr>"

definition sample_doc :: PdfDoc where
  "sample_doc =
     \<lparr>pages =
        [[\<lparr>str = ''Jane'', transform = Some (18, 0, 0, 18, 200, 700), fontName = Some ''Helvetica-Bold''\<rparr>,
          \<lparr>str = ''Doe'', transform = Some (18, 0, 0, 18, 260, 700), fontName = Some ''Helvetica-Bold''\<rparr>,
          \<lparr>str = ''a@b.cc'', transform = Some (10, 0, 0, 10, 72, 650), fontName = None\<rparr>]],
      viewport_width = 612\<rparr>"

definition pdf_world :: world where
  "pdf_world =
     \<lparr>readFile = (\<lambda>p. Inl ReadError), loadPdf = (\<lambda>p. Inr sample_doc), writable = (\<lambda>p. True)\<rparr>"

definition no_options :: Options where
  "no_options =
     \<lparr>outBase = None, modes = Map.empty, useNER = None, flagger = None, previewLimit = None,
      detectNameFromLayout = None\<rparr>"

section \<open>The sort\<close>

lemma set_insert_by: "set (insert_by cmp x ys) = insert x (set ys)"
  by (induction ys) auto

lemma set_sort_by: "set (sort_by cmp xs) = set xs"
  unfolding sort_by_def by (induction xs) (auto simp: set_insert_by)

lemma length_insert_by: "length (insert_by cmp x ys) = Suc (length ys)"
  by (induction ys) auto

lemma length_sort_by: "length (sort_by cmp xs) = length xs"
  unfolding sort_by_def by (induction xs) (auto simp: length_insert_by)

lemma sorted_insert_by:
  assumes tr: "\<And>a b c. \<not> cmp a b > 0 \<Longrightarrow> \<not> cmp b c > 0 \<Longrightarrow> \<not> cmp a c > 0"
    and tot: "\<And>a b. cmp a b > 0 \<Longrightarrow> \<not> cmp b a > 0"
  shows "sorted_wrt (\<lambda>a b. \<not> cmp a b > 0) ys
         \<Longrightarrow> sorted_wrt (\<lambda>a b. \<not> cmp a b > 0) (insert_by cmp x ys)"
proof (induction ys)
  case Nil
  then show ?case by simp
next
  case (Cons y ys)
  show ?case
  proof (cases "cmp x y > 0")
    case True
    then have "\<not> cmp y x > 0" by (rule tot)
    with Cons True show ?thesis by (auto simp: set_insert_by)
  next
    case False
    with Cons show ?thesis using tr by auto
  qed
qed

lemma sorted_sort_by:
  assumes tr: "\<And>a b c. \<not> cmp a b > 0 \<Longrightarrow> \<not> cmp b c > 0 \<Longrightarrow> \<not> cmp a c > 0"
    and tot: "\<And>a b. cmp a b > 0 \<Longrightarrow> \<not> cmp b a > 0"
  shows "sorted_wrt (\<lambda>a b. \<not> cmp a b > 0) (sort_by cmp xs)"
  unfolding sort_by_def
  by (induction xs) (auto intro: sorted_insert_by [OF tr tot])

section \<open>The resolver\<close>

lemma span_cmp_trans: "\<not> span_cmp a b > 0 \<Longrightarrow> \<not> span_cmp b c > 0 \<Longrightarrow> \<not> span_cmp a c > 0"
  by (auto simp: span_cmp_def split: if_splits)

lemma span_cmp_total: "span_cmp a b > 0 \<Longrightarrow> \<not> span_cmp b a > 0"
  by (auto simp: span_cmp_def split: if_splits)

lemma span_cmp_start: "\<not> span_cmp a b > 0 \<Longrightarrow> start a \<le> start b"
  by (auto simp: span_cmp_def split: if_splits)

lemma sorted_start_sort_by: "sorted (map start (sort_by span_cmp xs))"
proof -
  have "sorted_wrt (\<lambda>a b. \<not> span_cmp a b > 0) (sort_by span_cmp xs)"
    by (rule sorted_sort_by) (erule (1) span_cmp_trans, erule span_cmp_total)
  then have "sorted_wrt (\<lambda>a b. start a \<le> start b) (sort_by span_cmp xs)"
    by (rule sorted_wrt_mono_rel [rotated]) (auto dest: span_cmp_start)
  then show ?thesis by (simp add: sorted_wrt_map)
qed

lemma successively_snoc:
  "successively P (xs @ [x]) = (successively P xs \<and> (xs \<noteq> [] \<longrightarrow> P (last xs) x))"
  by (induction xs rule: induct_list012) auto

lemma resolve_step_inv:
  assumes "resolve_inv out (s # rest)" "sorted (map start (s # rest))"
  shows "resolve_inv (resolve_step out s) rest"
proof (cases "out = [] \<or> start s \<ge> endp (last out)")
  case True
  with assms show ?thesis
    by (auto simp: resolve_inv_def resolve_step_def successively_snoc sorted_append)
next
  case False
  then obtain ys top where out: "out = ys @ [top]"
    by (metis append_butlast_last_id)
  have upd: "out[length out - Suc 0 := s] = ys @ [s]" by (simp add: out)
  have "resolve_inv (ys @ [s]) rest"
    using assms unfolding out resolve_inv_def
    by (auto simp: successively_snoc sorted_append successively_append_iff)
  moreover have "resolve_inv out rest" using assms by (auto simp: resolve_inv_def)
  ultimately show ?thesis using False by (simp add: resolve_step_def Let_def upd)
qed

lemma foldl_resolve_inv:
  "resolve_inv out xs \<Longrightarrow> sorted (map start xs) \<Longrightarrow> resolve_inv (foldl resolve_step out xs) []"
proof (induction xs arbitrary: out)
  case Nil
  then show ?case by simp
next
  case (Cons s xs)
  have "resolve_inv (resolve_step out s) xs" using Cons.prems by (rule resolve_step_inv)
  moreover have "sorted (map start xs)" using Cons.prems(2) by simp
  ultimately show ?case using Cons.IH by simp
qed

lemma set_resolve_step: "set (resolve_step out s) \<subseteq> insert s (set out)"
  by (auto simp: resolve_step_def Let_def dest: set_update_subset_insert [THEN subsetD])

lemma set_foldl_resolve_step: "set (foldl resolve_step out xs) \<subseteq> set out \<union> set xs"
proof (induction xs arbitrary: out)
  case Nil
  then show ?case by simp
next
  case (Cons s xs)
  have "set (foldl resolve_step (resolve_step out s) xs) \<subseteq> set (resolve_step out s) \<union> set xs"
    by (rule Cons.IH)
  with set_resolve_step [of out s] show ?case by auto
qed

lemma set_mergeAndDedupe: "set (mergeAndDedupe spans) \<subseteq> set spans"
  unfolding mergeAndDedupe_def using set_foldl_resolve_step [of "[]" "sort_by span_cmp spans"]
  by (simp add: set_sort_by)

text \<open>
  C1. For every list of candidate spans, \<open>mergeAndDedupe\<close> returns a list
  in ascending order of \<open>start\<close> in which every span ends where the next one
  starts or before.
\<close>

theorem mergeAndDedupe_sorted_disjoint:
  "sorted (map start (mergeAndDedupe spans)) \<and>
   successively (\<lambda>a b. endp a \<le> start b) (mergeAndDedupe spans)"
proof -
  have "resolve_inv [] (sort_by span_cmp spans)" by (simp add: resolve_inv_def)
  then have "resolve_inv (mergeAndDedupe spans) []"
    unfolding mergeAndDedupe_def using sorted_start_sort_by by (rule foldl_resolve_inv)
  then show ?thesis by (simp add: resolve_inv_def)
qed

text \<open>
  C4. When a candidate overlaps the last accepted span, it replaces that span
  if and only if it is strictly shorter or its source has a strictly higher
  priority, and is dropped otherwise; the priorities are 3 for regex, 2 for
  flagger and for layout, 1 for ner and 0 without a source. A regex span of
  length 5 and a layout span of length 3 with the same start resolve to the
  layout span, in whichever order they are given.
\<close>

theorem resolver_overlap_rule:
  "(out \<noteq> [] \<and> start s < endp (last out) \<longrightarrow>
      resolve_step out s =
        (if endp s - start s < endp (last out) - start (last out)
            \<or> priority (source s) > priority (source (last out))
         then butlast out @ [s] else out))
   \<and> priority (Some Regex) = 3 \<and> priority (Some Flagger) = 2 \<and> priority (Some Layout) = 2
   \<and> priority (Some Ner) = 1 \<and> priority None = 0
   \<and> (source r = Some Regex \<and> source l = Some Layout \<and> start l = start r
        \<and> endp r - start r = 5 \<and> endp l - start l = 3 \<longrightarrow>
      mergeAndDedupe [r, l] = [l] \<and> mergeAndDedupe [l, r] = [l])"
proof (intro conjI impI)
  assume a: "out \<noteq> [] \<and> start s < endp (last out)"
  then have "out[length out - 1 := s] = butlast out @ [s]"
    by (cases out rule: rev_cases) simp_all
  with a show "resolve_step out s =
        (if endp s - start s < endp (last out) - start (last out)
            \<or> priority (source s) > priority (source (last out))
         then butlast out @ [s] else out)"
    by (simp add: resolve_step_def Let_def)
next
  assume a: "source r = Some Regex \<and> source l = Some Layout \<and> start l = start r
        \<and> endp r - start r = 5 \<and> endp l - start l = 3"
  then have sorted: "sort_by span_cmp [r, l] = [r, l]" "sort_by span_cmp [l, r] = [r, l]"
    by (simp_all add: sort_by_def span_cmp_def)
  have "foldl resolve_step [] [r, l] = [l]"
    using a by (simp add: resolve_step_def Let_def)
  then show "mergeAndDedupe [r, l] = [l]"  "mergeAndDedupe [l, r] = [l]"
    by (simp_all add: mergeAndDedupe_def sorted)
qed (simp_all add: priority_def)

theorem resolver_overlap_rule_witness:
  "resolve_step
     [\<lparr>start = 0, endp = 5, value = ''abcde'', kind = Email, source = Some Regex, score = None\<rparr>]
     \<lparr>start = 0, endp = 3, value = ''abc'', kind = Name, source = Some Layout, score = None\<rparr>
   = [\<lparr>start = 0, endp = 3, value = ''abc'', kind = Name, source = Some Layout, score = None\<rparr>]
   \<and> mergeAndDedupe
     [\<lparr>start = 0, endp = 5, value = ''abcde'', kind = Email, source = Some Regex, score = None\<rparr>,
      \<lparr>start = 0, endp = 3, value = ''abc'', kind = Name, source = Some Layout, score = None\<rparr>]
   = [\<lparr>start = 0, endp = 3, value = ''abc'', kind = Name, source = Some Layout, score = None\<rparr>]"
  using resolver_overlap_rule
    [of "[\<lparr>start = 0, endp = 5, value = ''abcde'', kind = Email, source = Some Regex, score = None\<rparr>]"
        "\<lparr>start = 0, endp = 3, value = ''abc'', kind = Name, source = Some Layout, score = None\<rparr>"
        "\<lparr>start = 0, endp = 5, value = ''abcde'', kind = Email, source = Some Regex, score = None\<rparr>"
        "\<lparr>start = 0, endp = 3, value = ''abc'', kind = Name, source = Some Layout, score = None\<rparr>"]
  by simp

section \<open>Normalisation\<close>

lemma rewrite_cr: "rewrite_text [CHR ''a'', CHR '' '', CHR 0x0D, CHR '' '', CHR ''b''] = ''a  b''"
  by code_simp

lemma rewrite_two_blanks: "rewrite_text ''a  b'' = ''a b''"
  by code_simp

lemma rewrite_hi_there:
  "rewrite_text (''hi  there'' @ [CHR 0x0D, CHR 0x0A]) = ''hi there'' @ [CHR 0x0A]"
  by code_simp

text \<open>
  C2. Normalisation is not idempotent. The runs of blanks are collapsed before
  the carriage returns are removed, so a carriage return between two blanks
  leaves two blanks, which a second normalisation collapses: on any host whose
  NFKC leaves these ASCII strings alone, \<open>a\<close>, blank, CR, blank, \<open>b\<close> becomes
  \<open>a\<close>, two blanks, \<open>b\<close>, and that becomes \<open>a b\<close>.
\<close>

theorem normalizeText_not_idempotent:
  assumes "nfkc H [CHR ''a'', CHR '' '', CHR 0x0D, CHR '' '', CHR ''b'']
             = [CHR ''a'', CHR '' '', CHR 0x0D, CHR '' '', CHR ''b'']"
    and "nfkc H ''a  b'' = ''a  b''"
  shows "normalizeText H [CHR ''a'', CHR '' '', CHR 0x0D, CHR '' '', CHR ''b''] = ''a  b''
         \<and> normalizeText H
              (normalizeText H [CHR ''a'', CHR '' '', CHR 0x0D, CHR '' '', CHR ''b'']) = ''a b''"
  using assms by (simp add: normalizeText_def rewrite_cr rewrite_two_blanks)

theorem normalizeText_not_idempotent_witness:
  "normalizeText ascii_host [CHR ''a'', CHR '' '', CHR 0x0D, CHR '' '', CHR ''b''] = ''a  b''
   \<and> normalizeText ascii_host
        (normalizeText ascii_host [CHR ''a'', CHR '' '', CHR 0x0D, CHR '' '', CHR ''b'']) = ''a b''"
proof -
  have "nfkc ascii_host [CHR ''a'', CHR '' '', CHR 0x0D, CHR '' '', CHR ''b'']
          = [CHR ''a'', CHR '' '', CHR 0x0D, CHR '' '', CHR ''b'']"
    and "nfkc ascii_host ''a  b'' = ''a  b''"
    by (simp_all add: ascii_host_def)
  then show ?thesis by (rule normalizeText_not_idempotent)
qed

section \<open>Redaction\<close>

lemma mergeAndDedupe_Nil: "mergeAndDedupe [] = []"
  by (simp add: mergeAndDedupe_def sort_by_def)

lemma slice_from_0: "slice_from t 0 = t"
  by (simp add: slice_from_def slice_def)

lemma applyRedaction_Nil: "applyRedaction H t [] m = Inr t"
  by (simp add: applyRedaction_def slice_from_0)

lemma slice_inside:
  "0 \<le> a \<Longrightarrow> a \<le> b \<Longrightarrow> b \<le> int (length t) \<Longrightarrow> slice t a b = substring t a b"
  by (simp add: slice_def substring_def Let_def min_def nat_diff_distrib)












text \<open>
  C10. Redaction with no spans returns the text as it is. Hence, when no
  detector yields a span, the engine either fails at a write or returns the
  normalised text as redacted text, and it returns it when every path can be
  written.
\<close>

theorem no_spans_normalized_text:
  "applyRedaction H t [] m = Inr t
   \<and> (extract_text H W filePath (detectNameFromLayout opts \<noteq> Some False) = Inr (rawText, cand)
        \<and> collect_spans H (normalizeText H rawText) cand (flagger opts) = []
      \<longrightarrow> (case fst (redactResumeFile H W filePath opts d) of
              Inr r \<Rightarrow> redactedText r = normalizeText H rawText \<and> hits r = []
            | Inl e \<Rightarrow> e = WriteError)
          \<and> ((\<forall>p. writable W p) \<longrightarrow> \<not> isl (fst (redactResumeFile H W filePath opts d))))"
  by (auto simp: applyRedaction_Nil redactResumeFile_def Let_def mergeAndDedupe_Nil writeFile_def
           split: sum.splits)

lemma no_spans_hi_there: "findRegexSpans (''hi there'' @ [CHR 0x0A]) = []"
  by code_simp

lemma normalizeText_hi_there:
  "normalizeText ascii_host (''hi  there'' @ [CHR 0x0D, CHR 0x0A]) = ''hi there'' @ [CHR 0x0A]"
  by (simp only: normalizeText_def ascii_host_def host.simps rewrite_hi_there)

lemma extract_text_sample:
  "extract_text ascii_host sample_world ''cv.txt'' b
   = Inr (''hi  there'' @ [CHR 0x0D, CHR 0x0A], None)"
  by (simp add: extract_text_def ascii_host_def sample_world_def toLowerCase_def lower_char_def
      is_AZ_def code_def)

theorem no_spans_normalized_text_witness:
  "(case fst (redactResumeFile ascii_host sample_world ''cv.txt'' no_options Map.empty) of
      Inr r \<Rightarrow> redactedText r = ''hi there'' @ [CHR 0x0A] \<and> hits r = []
    | Inl e \<Rightarrow> False)
   \<and> readFile sample_world ''cv.txt'' = Inr (''hi  there'' @ [CHR 0x0D, CHR 0x0A])"
proof -
  have c: "collect_spans ascii_host
             (normalizeText ascii_host (''hi  there'' @ [CHR 0x0D, CHR 0x0A])) None
             (flagger no_options) = []"
    unfolding normalizeText_hi_there using no_spans_hi_there
    by (simp add: collect_spans_def layout_spans_def flagger_spans_def no_options_def)
  have w: "\<forall>p. writable sample_world p" by (simp add: sample_world_def)
  have r: "readFile sample_world ''cv.txt'' = Inr (''hi  there'' @ [CHR 0x0D, CHR 0x0A])"
    by (simp add: sample_world_def)
  from no_spans_normalized_text [of ascii_host "''hi''" Map.empty sample_world "''cv.txt''"
        no_options "''hi  there'' @ [CHR 0x0D, CHR 0x0A]" None Map.empty]
    extract_text_sample c w
  have "(case fst (redactResumeFile ascii_host sample_world ''cv.txt'' no_options Map.empty) of
      Inr r \<Rightarrow> redactedText r
                 = normalizeText ascii_host (''hi  there'' @ [CHR 0x0D, CHR 0x0A]) \<and> hits r = []
    | Inl e \<Rightarrow> False)"
    by (simp split: sum.splits)
  then show ?thesis unfolding normalizeText_hi_there using r by simp
qed

section \<open>The entry point\<close>

lemma redactResumeFile_extract_fails:
  "extract_text H W filePath (detectNameFromLayout opts \<noteq> Some False) = Inl e
   \<Longrightarrow> redactResumeFile H W filePath opts d = (Inl e, d)"
  by (simp add: redactResumeFile_def)

lemma redactResumeFile_redacted:
  assumes "extract_text H W filePath (detectNameFromLayout opts \<noteq> Some False) = Inr (rawText, cand)"
    and "spans = mergeAndDedupe (collect_spans H (normalizeText H rawText) cand (flagger opts))"
    and "applyRedaction H (normalizeText H rawText) spans (defaultModes ++ modes opts) = Inr redacted"
  shows "redactResumeFile H W filePath opts d =
    (if \<not> writable W (out_base opts filePath @ ''.redacted.txt'') then (Inl WriteError, d)
     else if \<not> writable W (out_base opts filePath @ ''.pii.report.json'')
       then (Inl WriteError, d(out_base opts filePath @ ''.redacted.txt'' \<mapsto> Text_file redacted))
     else (Inr \<lparr>redactedText = redacted, fileHashSha256 = sha256Hex H rawText,
                hits = spans, counts = count_kinds spans,
                outRedactedPath = Some (out_base opts filePath @ ''.redacted.txt''),
                outReportPath = Some (out_base opts filePath @ ''.pii.report.json'')\<rparr>,
           d(out_base opts filePath @ ''.redacted.txt'' \<mapsto> Text_file redacted,
             out_base opts filePath @ ''.pii.report.json'' \<mapsto>
               Json_file (make_report opts (count_kinds spans) (sha256Hex H rawText)
                            (defaultModes ++ modes opts) spans cand))))"
  using assms(1) assms(3) unfolding assms(2)
  by (simp add: redactResumeFile_def Let_def writeFile_def)

subsection \<open>Sample runs\<close>

lemma rewrite_mail: "rewrite_text ''a@b.cc'' = ''a@b.cc''"
  by code_simp

lemma spans_mail: "findRegexSpans ''a@b.cc'' = [mail_span]"
  by code_simp

lemma strip_ext_cv: "strip_ext ''cv.txt'' = ''cv''"
  by code_simp

lemma mergeAndDedupe_single: "mergeAndDedupe [s] = [s]"
  by (simp add: mergeAndDedupe_def sort_by_def resolve_step_def)

lemma redact_mail:
  "applyRedaction ascii_host ''a@b.cc'' [mail_span] (defaultModes ++ Map.empty)
   = Inr ''[[EMAIL:00000000]]''"
  by code_simp

lemma extract_txt:
  "extract_text ascii_host W p b = (case readFile W p of Inl e \<Rightarrow> Inl e | Inr t \<Rightarrow> Inr (t, None))"
  by (simp add: extract_text_def ascii_host_def toLowerCase_def lower_char_def is_AZ_def code_def)

lemma normalizeText_mail: "normalizeText ascii_host ''a@b.cc'' = ''a@b.cc''"
  by (simp add: normalizeText_def ascii_host_def rewrite_mail)

lemma hits_mail:
  "mergeAndDedupe (collect_spans ascii_host ''a@b.cc'' None None) = [mail_span]"
  by (simp add: collect_spans_def spans_mail layout_spans_def flagger_spans_def mergeAndDedupe_single)

lemma out_base_cv: "out_base no_options ''cv.txt'' = ''cv''"
  by (simp add: out_base_def no_options_def strip_ext_cv)

lemma mail_steps:
  "[mail_span] = mergeAndDedupe (collect_spans ascii_host (normalizeText ascii_host ''a@b.cc'')
                                   None (flagger no_options))"
  "applyRedaction ascii_host (normalizeText ascii_host ''a@b.cc'') [mail_span]
     (defaultModes ++ modes no_options) = Inr ''[[EMAIL:00000000]]''"
  using redact_mail by (simp_all add: normalizeText_mail hits_mail no_options_def)

lemma run_mail:
  "redactResumeFile ascii_host mail_world ''cv.txt'' no_options Map.empty
   = (Inr \<lparr>redactedText = ''[[EMAIL:00000000]]'', fileHashSha256 = sha256Hex ascii_host ''a@b.cc'',
            hits = [mail_span], counts = count_kinds [mail_span],
            outRedactedPath = Some ''cv.redacted.txt'',
            outReportPath = Some ''cv.pii.report.json''\<rparr>,
      [''cv.redacted.txt'' \<mapsto> Text_file ''[[EMAIL:00000000]]'',
       ''cv.pii.report.json'' \<mapsto>
          Json_file (make_report no_options (count_kinds [mail_span]) (sha256Hex ascii_host ''a@b.cc'')
                       (defaultModes ++ modes no_options) [mail_span] None)])"
proof -
  have e: "extract_text ascii_host mail_world ''cv.txt'' (detectNameFromLayout no_options \<noteq> Some False)
           = Inr (''a@b.cc'', None)"
    by (simp add: extract_txt mail_world_def)
  show ?thesis
    by (subst redactResumeFile_redacted [OF e mail_steps]) (simp add: out_base_cv mail_world_def)
qed

lemma run_report_locked:
  "redactResumeFile ascii_host report_locked_world ''cv.txt'' no_options Map.empty
   = (Inl WriteError, [''cv.redacted.txt'' \<mapsto> Text_file ''[[EMAIL:00000000]]''])"
proof -
  have e: "extract_text ascii_host report_locked_world ''cv.txt''
             (detectNameFromLayout no_options \<noteq> Some False) = Inr (''a@b.cc'', None)"
    by (simp add: extract_txt report_locked_world_def)
  show ?thesis
    by (subst redactResumeFile_redacted [OF e mail_steps])
       (simp add: out_base_cv report_locked_world_def)
qed

lemma run_unreadable:
  "redactResumeFile ascii_host unreadable_world ''cv.txt'' no_options d = (Inl ReadError, d)"
  by (rule redactResumeFile_extract_fails) (simp add: extract_txt unreadable_world_def)

subsection \<open>Counts\<close>

lemma foldl_count_step:
  "foldl count_step c0 spans k
   = (if c0 k = None \<and> k \<notin> kind ` set spans then None
      else Some ((case c0 k of None \<Rightarrow> 0 | Some n \<Rightarrow> n) + count_list (map kind spans) k))"
proof (induction spans arbitrary: c0)
  case Nil
  then show ?case by (auto split: option.splits)
next
  case (Cons s spans)
  show ?case
    by (subst foldl_Cons, subst Cons.IH) (auto simp: count_step_def split: option.splits)
qed

lemma count_kinds_eq:
  "count_kinds spans k =
     (if k \<in> kind ` set spans then Some (count_list (map kind spans) k) else None)"
  unfolding count_kinds_def by (simp add: foldl_count_step)

lemma dom_count_kinds: "dom (count_kinds spans) = kind ` set spans"
  by (auto simp: dom_def count_kinds_eq)

lemma sum_count_kinds:
  "(\<Sum>k \<in> dom (count_kinds spans). the (count_kinds spans k)) = length spans"
proof -
  have "(\<Sum>k \<in> kind ` set spans. the (count_kinds spans k))
        = (\<Sum>k \<in> set (map kind spans). count_list (map kind spans) k)"
    by (rule sum.cong) (auto simp: count_kinds_eq)
  also have "\<dots> = length (map kind spans)"
    by (rule sum_count_set) simp_all
  finally show ?thesis by (simp add: dom_count_kinds)
qed

text \<open>
  C9. In every result, \<open>counts\<close> is the tally of \<open>hits\<close> by kind: a kind
  with spans maps to their number, a kind without spans has no entry, and
  the entries add up to the number of hits, which is also \<open>total_spans\<close> in
  the report written at \<open>outReportPath\<close>, whose counts are the same.
\<close>

theorem counts_tally_hits:
  assumes "redactResumeFile H W filePath opts d = (Inr r, d')"
  shows "counts r k = (if count_list (map kind (hits r)) k = 0 then None
                       else Some (count_list (map kind (hits r)) k))
    \<and> (\<Sum>k \<in> dom (counts r). the (counts r k)) = length (hits r)
    \<and> (\<exists>rep. Some (Json_file rep) = (case outReportPath r of None \<Rightarrow> None | Some p \<Rightarrow> d' p)
           \<and> total_spans rep = length (hits r) \<and> report_counts rep = counts r)"
proof -
  from assms obtain spans where r: "counts r = count_kinds spans" "hits r = spans"
    and rep: "\<exists>rep. Some (Json_file rep) = (case outReportPath r of None \<Rightarrow> None | Some p \<Rightarrow> d' p)
           \<and> total_spans rep = length spans \<and> report_counts rep = count_kinds spans"
    by (auto simp: redactResumeFile_def Let_def writeFile_def make_report_def
             split: sum.splits if_splits prod.splits)
  have "count_kinds spans k = (if count_list (map kind spans) k = 0 then None
                       else Some (count_list (map kind spans) k))"
    by (auto simp: count_kinds_eq count_list_0_iff)
  with r rep sum_count_kinds [of spans] show ?thesis by simp
qed

theorem counts_tally_hits_witness:
  "count_kinds [mail_span] Email = Some 1 \<and> count_kinds [mail_span] Name = None
   \<and> (\<Sum>k \<in> dom (count_kinds [mail_span]). the (count_kinds [mail_span] k)) = 1"
  using counts_tally_hits [OF run_mail, of Email] counts_tally_hits [OF run_mail, of Name]
  by (simp add: mail_span_def)

section \<open>Valid spans\<close>

lemma rep_min_minlen:
  assumes step: "\<And>i j. j \<in> set (step i) \<Longrightarrow> i + k \<le> j"
  shows "j \<in> set (rep_min step n lo hi i) \<Longrightarrow> i + lo * k \<le> j"
proof (induction lo arbitrary: i j)
  case 0
  then show ?case using star_from_bounds [of j step n hi i] by simp
next
  case (Suc lo)
  from Suc.prems obtain m where m: "m \<in> set (step i)" "j \<in> set (rep_min step n lo hi m)"
    by auto
  from step [OF m(1)] Suc.IH [OF m(2)] show ?case by simp
qed

lemma ms_minlen: "j \<in> set (ms r t i) \<Longrightarrow> i + minlen r \<le> j"
proof (induction r arbitrary: i j)
  case (Cls p)
  then show ?case by (simp split: if_splits)
next
  case Eps
  then show ?case by simp
next
  case WordB
  then show ?case by (simp split: if_splits)
next
  case EndT
  then show ?case by (simp split: if_splits)
next
  case (Seq a b)
  from Seq.prems obtain k where k: "k \<in> set (ms a t i)" "j \<in> set (ms b t k)" by auto
  from Seq.IH(1) [OF k(1)] Seq.IH(2) [OF k(2)] show ?case by simp
next
  case (Alt a b)
  from Alt.prems have "j \<in> set (ms a t i) \<or> j \<in> set (ms b t i)" by simp
  with Alt.IH show ?case by fastforce
next
  case (Rep lo extra r)
  have mem: "j \<in> set (rep_min (ms r t) (length t) lo extra i)"
    using Rep.prems by simp
  show ?case
    using rep_min_minlen [of "ms r t" "minlen r" j "length t" lo extra i, OF Rep.IH mem] by simp
qed

lemma find_from_minlen: "find_from r t i = Some (s, e) \<Longrightarrow> s + minlen r \<le> e"
proof (induction r t i rule: find_from.induct)
  case (1 r t i)
  show ?case
  proof (cases "ms r t i")
    case Nil
    with "1.prems" have gt: "\<not> i > length t" and "find_from r t (Suc i) = Some (s, e)"
      by (auto simp: find_from.simps [of r t i] split: if_splits)
    with "1.IH" [OF gt Nil] show ?thesis by simp
  next
    case (Cons e' es)
    with "1.prems" have "s = i" "e = e'"
      by (auto simp: find_from.simps [of r t i] split: if_splits)
    moreover have "e' \<in> set (ms r t i)" using Cons by simp
    ultimately show ?thesis using ms_minlen [of e' r t i] by simp
  qed
qed

lemma scan_from_bounds:
  "(s, e) \<in> set (scan_from r t i) \<Longrightarrow> i \<le> s \<and> s + minlen r \<le> e \<and> e \<le> length t"
proof (induction r t i rule: scan_from.induct)
  case (1 r t i)
  show ?case
  proof (cases "find_from r t i")
    case None
    with "1.prems" show ?thesis by (simp add: scan_from.simps [of r t i])
  next
    case (Some p)
    obtain s' e' where p: "p = (s', e')" by (cases p)
    note f = Some [unfolded p]
    from find_from_bounds [OF f] find_from_minlen [OF f]
    have b: "i \<le> s'" "s' \<le> e'" "e' \<le> length t" "s' + minlen r \<le> e'" by simp_all
    from "1.prems" f
    consider "(s, e) = (s', e')" | "(s, e) \<in> set (scan_from r t (if e' = s' then Suc e' else e'))"
      by (auto simp: scan_from.simps [of r t i])
    then show ?thesis
    proof cases
      case 1
      with b show ?thesis by simp
    next
      case 2
      from "1.IH" [OF Some p [symmetric] 2] b show ?thesis by (auto split: if_splits)
    qed
  qed
qed

lemma minlen_seqs: "minlen (seqs rs) = sum_list (map minlen rs)"
  by (induction rs) (simp_all add: seqs_def)

lemma minlen_positive:
  "0 < minlen R_email" "0 < minlen R_phone" "0 < minlen R_url" "0 < minlen R_linkedin"
  "0 < minlen R_github" "0 < minlen R_address" "0 < minlen R_id"
  by (simp_all add: R_email_def R_phone_def R_url_def R_linkedin_def R_github_def R_address_def
      R_id_def minlen_seqs plus1_def opt_def)

lemma scan_ok:
  assumes "0 < minlen re"
  shows "\<forall>s \<in> set (scan t k re). span_ok t s"
proof
  fix s assume "s \<in> set (scan t k re)"
  then obtain a b where ab: "(a, b) \<in> set (scan_from re t 0)"
    and s: "s = \<lparr>start = int a, endp = int b, value = take (b - a) (drop a t),
                 kind = k, source = Some Regex, score = None\<rparr>"
    by (auto simp: scan_def)
  from scan_from_bounds [OF ab] assms have "a < b" "b \<le> length t" by simp_all
  then show "span_ok t s" by (simp add: s span_ok_def substring_def)
qed

lemma findRegexSpans_ok: "\<forall>s \<in> set (findRegexSpans t). span_ok t s"
  using scan_ok [OF minlen_positive(1), of t Email] scan_ok [OF minlen_positive(2), of t Phone]
    scan_ok [OF minlen_positive(3), of t Url] scan_ok [OF minlen_positive(4), of t Linkedin]
    scan_ok [OF minlen_positive(5), of t Github] scan_ok [OF minlen_positive(6), of t Address]
    scan_ok [OF minlen_positive(7), of t Id]
  by (auto simp: findRegexSpans_def set_sort_by)

lemma flagger_span_ok: "\<forall>s \<in> set (flagger_span t f). span_ok t s"
  by (auto simp: flagger_span_def Let_def span_ok_def slice_inside)

lemma flagger_spans_ok: "\<forall>s \<in> set (flagger_spans t fl). span_ok t s"
  using flagger_span_ok by (auto simp: flagger_spans_def split: option.splits sum.splits)

subsection \<open>Redaction of the collected spans does not fail\<close>

lemma layout_spans_le: "\<forall>s \<in> set (layout_spans H n cand). start s \<le> endp s"
  by (auto simp: layout_spans_def locateCandidateInNormalized_def Let_def
           split: option.splits if_splits dest: find_from_bounds)

lemma collect_spans_le: "\<forall>s \<in> set (collect_spans H n cand fl). start s \<le> endp s"
  using findRegexSpans_ok [of n] flagger_spans_ok [of n fl] layout_spans_le [of H n cand]
  by (auto simp: collect_spans_def span_ok_def)

lemma redact_loop_total:
  "\<forall>s \<in> set spans. start s \<le> endp s \<Longrightarrow> \<exists>r. redact_loop H t m spans out pos = Inr r"
proof (induction spans arbitrary: out pos)
  case Nil
  then show ?case by simp
next
  case (Cons s spans)
  then show ?case by (cases "mode_of m (kind s)") (simp_all add: Let_def)
qed

lemma applyRedaction_total:
  assumes "\<forall>s \<in> set spans. start s \<le> endp s"
  shows "\<exists>redacted. applyRedaction H t spans m = Inr redacted"
proof -
  from redact_loop_total [OF assms, of H t m "[]" 0]
  obtain r where "redact_loop H t m spans [] 0 = Inr r" by blast
  then show ?thesis by (cases r) (simp add: applyRedaction_def)
qed

lemma redaction_total:
  "\<exists>redacted. applyRedaction H n (mergeAndDedupe (collect_spans H n cand fl)) m = Inr redacted"
proof (rule applyRedaction_total)
  show "\<forall>s \<in> set (mergeAndDedupe (collect_spans H n cand fl)). start s \<le> endp s"
    using collect_spans_le [of H n cand fl] set_mergeAndDedupe [of "collect_spans H n cand fl"]
    by blast
qed

subsection \<open>Whitespace-only matches\<close>

lemma star_from_only:
  "\<forall>i j k. j \<in> set (step i) \<longrightarrow> i \<le> k \<longrightarrow> k < j \<longrightarrow> P (t ! k)
   \<Longrightarrow> j \<in> set (star_from step n hi i) \<Longrightarrow> i \<le> k \<Longrightarrow> k < j \<Longrightarrow> P (t ! k)"
proof (induction step n hi i arbitrary: j rule: star_from.induct)
  case (1 step n hi i)
  note st = "1.prems"(1) and mem = "1.prems"(2) and ik = "1.prems"(3) and kj = "1.prems"(4)
  show ?case
  proof (cases "hi = Some 0")
    case True
    with mem ik kj show ?thesis by (subst (asm) star_from.simps) simp
  next
    case False
    from mem False
    consider "j = i"
      | m where "m \<in> set (step i)" "i < m" "m \<le> n" "j \<in> set (star_from step n (dec hi) m)"
      by (subst (asm) star_from.simps) auto
    then show ?thesis
    proof cases
      case 1
      with ik kj show ?thesis by simp
    next
      case 2
      show ?thesis
      proof (cases "k < m")
        case True
        with st 2(1) ik show ?thesis by blast
      next
        case False
        then have mk: "m \<le> k" by simp
        have "m \<in> set (filter (\<lambda>j. i < j \<and> j \<le> n) (step i))" using 2 by simp
        from "1.IH" [OF \<open>hi \<noteq> Some 0\<close> this st 2(4) mk kj]
        show ?thesis .
      qed
    qed
  qed
qed

lemma rep_min_only:
  assumes st: "\<forall>i j k. j \<in> set (step i) \<longrightarrow> i \<le> k \<longrightarrow> k < j \<longrightarrow> P (t ! k)"
  shows "j \<in> set (rep_min step n lo hi i) \<Longrightarrow> i \<le> k \<Longrightarrow> k < j \<Longrightarrow> P (t ! k)"
proof (induction lo arbitrary: i j)
  case 0
  then show ?case using star_from_only [OF st, of j n hi i k] by simp
next
  case (Suc lo)
  from Suc.prems(1) obtain m where m: "m \<in> set (step i)" "j \<in> set (rep_min step n lo hi m)"
    by auto
  show ?case
  proof (cases "k < m")
    case True
    with st m(1) Suc.prems(2) show ?thesis by blast
  next
    case False
    then have "m \<le> k" by simp
    from Suc.IH [OF m(2) this Suc.prems(3)] show ?thesis .
  qed
qed

lemma ms_only:
  "only P r \<Longrightarrow> j \<in> set (ms r t i) \<Longrightarrow> i \<le> k \<Longrightarrow> k < j \<Longrightarrow> P (t ! k)"
proof (induction r arbitrary: i j k)
  case (Cls q)
  then show ?case by (auto split: if_splits simp: less_Suc_eq_le)
next
  case Eps
  then show ?case by simp
next
  case WordB
  then show ?case by (simp split: if_splits)
next
  case EndT
  then show ?case by (simp split: if_splits)
next
  case (Seq a b)
  from Seq.prems(2) obtain m where m: "m \<in> set (ms a t i)" "j \<in> set (ms b t m)" by auto
  from Seq.prems(1) have oa: "only P a" and ob: "only P b" by simp_all
  show ?case
  proof (cases "k < m")
    case True
    from Seq.IH(1) [OF oa m(1) Seq.prems(3) True] show ?thesis .
  next
    case False
    then have "m \<le> k" by simp
    from Seq.IH(2) [OF ob m(2) this Seq.prems(4)] show ?thesis .
  qed
next
  case (Alt a b)
  from Alt.prems(1) have oa: "only P a" and ob: "only P b" by simp_all
  from Alt.prems(2) have "j \<in> set (ms a t i) \<or> j \<in> set (ms b t i)" by simp
  then show ?case
  proof
    assume "j \<in> set (ms a t i)"
    from Alt.IH(1) [OF oa this Alt.prems(3) Alt.prems(4)] show ?thesis .
  next
    assume "j \<in> set (ms b t i)"
    from Alt.IH(2) [OF ob this Alt.prems(3) Alt.prems(4)] show ?thesis .
  qed
next
  case (Rep lo extra r)
  have mem: "j \<in> set (rep_min (ms r t) (length t) lo extra i)"
    using Rep.prems(2) by simp
  from Rep.prems(1) have o: "only P r" by simp
  have st: "\<forall>i j k. j \<in> set (ms r t i) \<longrightarrow> i \<le> k \<longrightarrow> k < j \<longrightarrow> P (t ! k)"
    using Rep.IH [OF o] by blast
  from rep_min_only [OF st mem Rep.prems(3) Rep.prems(4)] show ?case .
qed

lemma find_from_mem: "find_from r t i = Some (s, e) \<Longrightarrow> e \<in> set (ms r t s)"
proof (induction r t i rule: find_from.induct)
  case (1 r t i)
  show ?case
  proof (cases "ms r t i")
    case Nil
    with "1.prems" have gt: "\<not> i > length t" and "find_from r t (Suc i) = Some (s, e)"
      by (auto simp: find_from.simps [of r t i] split: if_splits)
    with "1.IH" [OF gt Nil] show ?thesis by simp
  next
    case (Cons e' es)
    with "1.prems" have "s = i" "e = e'"
      by (auto simp: find_from.simps [of r t i] split: if_splits)
    then show ?thesis using Cons by simp
  qed
qed

lemma build_visible_only:
  "only is_space r \<Longrightarrow> pos \<le> i \<Longrightarrow> pos \<le> k \<Longrightarrow> k < length t \<Longrightarrow> \<not> is_space (t ! k)
   \<Longrightarrow> visible (build t pos (scan_from r t i) rep)"
proof (induction r t i arbitrary: pos rule: scan_from.induct)
  case (1 r t i)
  show ?case
  proof (cases "find_from r t i")
    case None
    have "t ! k \<in> set (drop pos t)"
      using "1.prems" by (auto simp: in_set_conv_nth intro!: exI [of _ "k - pos"])
    with None "1.prems"(5) show ?thesis
      by (auto simp: scan_from.simps [of r t i] visible_def list_ex_iff)
  next
    case (Some p)
    obtain s e where p: "p = (s, e)" by (cases p)
    note f = Some [unfolded p]
    from find_from_bounds [OF f] have b: "i \<le> s" "s \<le> e" "e \<le> length t" by simp_all
    have sc: "scan_from r t i = (s, e) # scan_from r t (if e = s then Suc e else e)"
      using f by (simp add: scan_from.simps [of r t i])
    show ?thesis
    proof (cases "k < s")
      case True
      then have "t ! k \<in> set (take (s - pos) (drop pos t))"
        using "1.prems" by (auto simp: in_set_conv_nth intro!: exI [of _ "k - pos"])
      with "1.prems"(5) show ?thesis
        by (auto simp: sc visible_def list_ex_iff)
    next
      case False
      then have sk: "s \<le> k" by simp
      have "e \<le> k"
      proof (rule ccontr)
        assume "\<not> e \<le> k"
        then have "k < e" by simp
        from ms_only [OF "1.prems"(1) find_from_mem [OF f] sk this] "1.prems"(5)
        show False by simp
      qed
      moreover have "e \<le> (if e = s then Suc e else e)" by simp
      ultimately have "visible (build t e (scan_from r t (if e = s then Suc e else e)) rep)"
        using "1.IH" [OF Some p [symmetric] "1.prems"(1) _ _ "1.prems"(4) "1.prems"(5)] by blast
      then show ?thesis by (auto simp: sc visible_def list_ex_iff)
    qed
  qed
qed

lemma visible_nth: "visible t \<longleftrightarrow> (\<exists>k < length t. \<not> is_space (t ! k))"
  unfolding visible_def list_ex_iff by (metis in_set_conv_nth)

lemma replace_all_visible_only:
  "only is_space r \<Longrightarrow> visible t \<Longrightarrow> visible (replace_all r rep t)"
  unfolding replace_all_def visible_nth [of t]
  using build_visible_only [of r 0 0 _ t rep] by auto

lemma replace_all_visible_rep:
  "visible rep \<Longrightarrow> visible t \<Longrightarrow> visible (replace_all r rep t)"
proof (cases "scan_from r t 0")
  case Nil
  assume "visible t"
  with Nil show ?thesis by (simp add: replace_all_def)
next
  case (Cons p ps)
  assume "visible rep"
  with Cons show ?thesis
    by (cases p) (auto simp: replace_all_def visible_def list_ex_iff)
qed

lemma rewrite_text_visible: "visible t \<Longrightarrow> visible (rewrite_text t)"
  unfolding rewrite_text_def Let_def
  by (intro replace_all_visible_only replace_all_visible_rep)
     (simp_all add: plus1_def visible_def is_space_def code_def)

lemma dropWhile_visible:
  "visible s \<Longrightarrow> dropWhile is_space s \<noteq> [] \<and> \<not> is_space (hd (dropWhile is_space s))"
  by (induction s) (auto simp: visible_def)

lemma trim_visible:
  assumes "visible s"
  shows "trim s \<noteq> [] \<and> \<not> is_space (hd (trim s))"
proof -
  let ?u = "dropWhile is_space s"
  from dropWhile_visible [OF assms] obtain c cs where u: "?u = c # cs" and c: "\<not> is_space c"
    by (cases ?u) auto
  have "dropWhile is_space (rev ?u) = dropWhile is_space (rev cs) @ [c]"
    using c by (simp add: u dropWhile_append)
  then show ?thesis using c by (simp add: trim_def)
qed

lemma split_ws_hd:
  assumes "u \<noteq> []" "\<not> is_space (hd u)"
  shows "\<exists>tok toks. split_ws u = tok # toks \<and> tok \<noteq> []"
proof -
  from assms obtain c cs where u: "u = c # cs" and c: "\<not> is_space c" by (cases u) auto
  then have "takeWhile (\<lambda>c. \<not> is_space c) u \<noteq> []" by simp
  then show ?thesis by (subst split_ws.simps) (simp add: Let_def)
qed

lemma minlen_liti: "minlen (liti s) = length s"
  by (induction s) (simp_all add: liti_def seqs_def chi_def)

lemma minlen_join_ws: "minlen r \<le> minlen (join_ws (r # rs))"
  by (cases rs) simp_all

lemma locate_ok:
  assumes "visible (normalizeText H c)"
    and "locateCandidateInNormalized H n c = Some (s, e)"
  shows "0 \<le> s \<and> s < e \<and> e \<le> int (length n)"
proof -
  let ?toks = "split_ws (trim (normalizeText H c))"
  from trim_visible [OF assms(1)] split_ws_hd
  obtain tok toks where toks: "?toks = tok # toks" and tok: "tok \<noteq> []" by blast
  let ?re = "join_ws (map liti ?toks)"
  from assms(2) obtain a b where f: "find_from ?re n 0 = Some (a, b)" and s: "s = int a" "e = int b"
    by (auto simp: locateCandidateInNormalized_def Let_def split: option.splits)
  have "minlen (liti tok) \<le> minlen ?re"
    unfolding toks using minlen_join_ws [of "liti tok" "map liti toks"] by simp
  moreover have "0 < minlen (liti tok)" using tok by (simp add: minlen_liti)
  ultimately have "0 < minlen ?re" by linarith
  with find_from_minlen [OF f] find_from_bounds [OF f] show ?thesis by (simp add: s)
qed

lemma layout_spans_ok:
  assumes "\<forall>c. cand = Some c \<longrightarrow> visible (normalizeText H (line_text c))"
  shows "\<forall>s \<in> set (layout_spans H n cand). span_ok n s"
proof (cases cand)
  case None
  then show ?thesis by (simp add: layout_spans_def)
next
  case (Some c)
  with assms have v: "visible (normalizeText H (line_text c))" by simp
  show ?thesis
  proof (cases "locateCandidateInNormalized H n (line_text c)")
    case None
    with Some show ?thesis by (simp add: layout_spans_def)
  next
    case (Some p)
    obtain s e where p: "p = (s, e)" by (cases p)
    from locate_ok [OF v Some [unfolded p]] \<open>cand = Some c\<close> Some p show ?thesis
      by (auto simp: layout_spans_def span_ok_def slice_inside)
  qed
qed

lemma hd_sort_by_mem:
  "(case sort_by cmp xs of [] \<Rightarrow> None | c # _ \<Rightarrow> Some c) = Some c \<Longrightarrow> c \<in> set xs"
  by (cases "sort_by cmp xs") (auto dest: arg_cong [where f = set] simp: set_sort_by)

lemma chooseNameCandidate_text:
  assumes "chooseNameCandidate H ls = Some c"
  shows "\<exists>l \<in> set ls. line_text c = line_text l"
proof -
  have f: "line_text (scored a b z l) = line_text l" for a b z l
    by (simp add: scored_def Let_def)
  from assms obtain a b z x where "x \<in> set ls" "c = scored a b z x"
    unfolding chooseNameCandidate_def Let_def
    by (auto split: if_splits dest!: hd_sort_by_mem)
  then show ?thesis using f by auto
qed

lemma normalizeText_visible:
  assumes "\<forall>s. visible s \<longrightarrow> visible (nfkc H s)" "visible s"
  shows "visible (normalizeText H s)"
  unfolding normalizeText_def using assms by (intro rewrite_text_visible) simp

lemma extract_text_candidate:
  assumes "extract_text H W filePath dn = Inr (rawText, Some c)"
  shows "\<exists>t ls w. pdfExtractWithLayout H W filePath = Inr (t, ls, w) \<and> (\<exists>l \<in> set ls. line_text c = line_text l)"
  using assms
  by (auto simp: extract_text_def split: if_splits sum.splits dest: chooseNameCandidate_text)

lemma mergeAndDedupe_ok:
  "\<forall>s \<in> set spans. span_ok t s \<Longrightarrow> list_all (span_ok t) (mergeAndDedupe spans)"
  using set_mergeAndDedupe [of spans] by (auto simp: list_all_iff)

lemma trim_nonempty_visible:
  assumes "trim s \<noteq> []"
  shows "visible (trim s)"
proof -
  let ?u = "dropWhile is_space (rev (dropWhile is_space s))"
  from assms have ne: "?u \<noteq> []" by (simp add: trim_def)
  then have "\<not> is_space (hd ?u)" by (rule hd_dropWhile)
  moreover have "hd ?u \<in> set (trim s)" using ne by (simp add: trim_def)
  ultimately show ?thesis by (auto simp: visible_def list_ex_iff)
qed

lemma make_line_visible: "make_line vw ky runs = Some l \<Longrightarrow> visible (line_text l)"
  by (auto simp: make_line_def Let_def split: if_splits intro: trim_nonempty_visible)

lemma map_filter_mem: "y \<in> set (List.map_filter g xs) \<Longrightarrow> \<exists>x \<in> set xs. g x = Some y"
  by (auto simp: List.map_filter_def)

lemma layout_lines_visible: "l \<in> set (layout_lines H vw items1) \<Longrightarrow> visible (line_text l)"
  unfolding layout_lines_def Let_def by (auto dest!: map_filter_mem dest: make_line_visible)

lemma pdfExtractWithLayout_visible:
  "pdfExtractWithLayout H W p = Inr (t, ls, w) \<Longrightarrow> l \<in> set ls \<Longrightarrow> visible (line_text l)"
  by (auto simp: pdfExtractWithLayout_def split: sum.splits list.splits dest: layout_lines_visible)

text \<open>
  C6. Every span the engine emits is valid for the normalised text: the
  matches of the seven patterns, the name span located for the layout
  candidate, the proposals of the flagger after clamping (empty ranges
  dropped), and so the resolved hits. Each has \<open>0 <= start < end <= len\<close>
  and its value is the text between its offsets. The host's NFKC is taken to
  keep a character that is not white space in a string that has one.
\<close>

theorem emitted_spans_valid:
  assumes "\<forall>s. visible s \<longrightarrow> visible (nfkc H s)"
    and "extract_text H W filePath dn = Inr (rawText, cand)"
  shows "list_all (span_ok (normalizeText H rawText)) (findRegexSpans (normalizeText H rawText))
    \<and> list_all (span_ok (normalizeText H rawText)) (layout_spans H (normalizeText H rawText) cand)
    \<and> list_all (span_ok (normalizeText H rawText)) (flagger_spans (normalizeText H rawText) fl)
    \<and> list_all (span_ok (normalizeText H rawText))
         (mergeAndDedupe (collect_spans H (normalizeText H rawText) cand fl))
    \<and> (dn = (detectNameFromLayout opts \<noteq> Some False)
         \<and> fst (redactResumeFile H W filePath opts d) = Inr r
       \<longrightarrow> list_all (span_ok (normalizeText H rawText)) (hits r))"
proof -
  let ?n = "normalizeText H rawText"
  have "visible (normalizeText H (line_text c))" if "cand = Some c" for c
  proof -
    from extract_text_candidate [OF assms(2) [unfolded that]]
    have "visible (line_text c)" by (auto dest: pdfExtractWithLayout_visible)
    with assms(1) show ?thesis by (rule normalizeText_visible)
  qed
  then have l: "\<forall>s \<in> set (layout_spans H ?n cand). span_ok ?n s"
    by (intro layout_spans_ok) simp
  note r = findRegexSpans_ok [of ?n]
  have f: "\<forall>s \<in> set (flagger_spans ?n x). span_ok ?n s" for x
    by (rule flagger_spans_ok)
  have "\<forall>s \<in> set (collect_spans H ?n cand x). span_ok ?n s" for x
    using r l f [of x] by (auto simp: collect_spans_def)
  then have m: "list_all (span_ok ?n) (mergeAndDedupe (collect_spans H ?n cand x))" for x
    by (rule mergeAndDedupe_ok)
  have "list_all (span_ok ?n) (hits r)"
    if "dn = (detectNameFromLayout opts \<noteq> Some False)"
      and "fst (redactResumeFile H W filePath opts d) = Inr r"
  proof -
    from that assms(2)
    have "hits r = mergeAndDedupe (collect_spans H ?n cand (flagger opts))"
      by (auto simp: redactResumeFile_def Let_def writeFile_def split: sum.splits if_splits)
    with m [of "flagger opts"] show ?thesis by simp
  qed
  with r l f [of fl] m [of fl] show ?thesis by (simp add: list_all_iff)
qed

lemma lower_pdf: "toLowerCase ''.PDF'' = ''.pdf''"
  by code_simp

theorem emitted_spans_valid_witness:
  "list_all (span_ok (normalizeText pdf_host (full_text (pages sample_doc))))
     (mergeAndDedupe
        (collect_spans pdf_host (normalizeText pdf_host (full_text (pages sample_doc)))
           (chooseNameCandidate pdf_host (layout_lines pdf_host 612 (hd (pages sample_doc))))
           (Some \<lparr>flagger_name = ''f'',
                  flag = (\<lambda>t. Inr [\<lparr>p_start = - 3, p_end = 4, label = Name, p_score = None\<rparr>])\<rparr>)))"
proof -
  have h: "\<forall>s. visible s \<longrightarrow> visible (nfkc pdf_host s)"
    by (simp add: pdf_host_def ascii_host_def)
  have e: "extract_text pdf_host pdf_world ''cv.pdf'' True
           = Inr (full_text (pages sample_doc),
                  chooseNameCandidate pdf_host (layout_lines pdf_host 612 (hd (pages sample_doc))))"
    by (simp add: extract_text_def pdfExtractWithLayout_def pdf_host_def ascii_host_def
        pdf_world_def lower_pdf sample_doc_def)
  from emitted_spans_valid [OF h e] show ?thesis by blast
qed

section \<open>Failures\<close>

text \<open>
  C5. When the flagger fails on the normalised text, the engine does what it
  does without a flagger, and what it does with a flagger that proposes
  nothing: the same result and the same files. When the text can be
  extracted, the spans of the regex layer and of the layout detector are
  resolved and redacted, which does not fail, and the run ends as without a
  flagger: where both files can be written it returns the redacted text, these
  spans as hits and their counts, and has written both files; it fails only
  where a file cannot be written.
\<close>

theorem flagger_failure_is_empty:
  assumes "flagger opts = Some F"
    and "\<forall>rawText cand.
           extract_text H W filePath (detectNameFromLayout opts \<noteq> Some False) = Inr (rawText, cand)
           \<longrightarrow> isl (flag F (normalizeText H rawText))"
  shows "redactResumeFile H W filePath opts d = redactResumeFile H W filePath (opts\<lparr>flagger := None\<rparr>) d
    \<and> redactResumeFile H W filePath opts d
        = redactResumeFile H W filePath (opts\<lparr>flagger := Some (F\<lparr>flag := \<lambda>t. Inr []\<rparr>)\<rparr>) d
    \<and> (\<forall>rawText cand.
          extract_text H W filePath (detectNameFromLayout opts \<noteq> Some False) = Inr (rawText, cand) \<longrightarrow>
          (\<exists>redacted.
             applyRedaction H (normalizeText H rawText)
               (mergeAndDedupe (findRegexSpans (normalizeText H rawText)
                                @ layout_spans H (normalizeText H rawText) cand))
               (defaultModes ++ modes opts) = Inr redacted
             \<and> redactResumeFile H W filePath opts d =
                (if \<not> writable W (out_base opts filePath @ ''.redacted.txt'') then (Inl WriteError, d)
                 else if \<not> writable W (out_base opts filePath @ ''.pii.report.json'')
                 then (Inl WriteError, d(out_base opts filePath @ ''.redacted.txt'' \<mapsto> Text_file redacted))
                 else (Inr \<lparr>redactedText = redacted, fileHashSha256 = sha256Hex H rawText,
                            hits = mergeAndDedupe (findRegexSpans (normalizeText H rawText)
                                     @ layout_spans H (normalizeText H rawText) cand),
                            counts = count_kinds
                                   (mergeAndDedupe (findRegexSpans (normalizeText H rawText)
                                     @ layout_spans H (normalizeText H rawText) cand)),
                            outRedactedPath = Some (out_base opts filePath @ ''.redacted.txt''),
                            outReportPath = Some (out_base opts filePath @ ''.pii.report.json'')\<rparr>,
                       d(out_base opts filePath @ ''.redacted.txt'' \<mapsto> Text_file redacted,
                         out_base opts filePath @ ''.pii.report.json'' \<mapsto>
                           Json_file (make_report opts
                             (count_kinds
                                (mergeAndDedupe (findRegexSpans (normalizeText H rawText)
                                   @ layout_spans H (normalizeText H rawText) cand)))
                             (sha256Hex H rawText) (defaultModes ++ modes opts)
                             (mergeAndDedupe (findRegexSpans (normalizeText H rawText)
                                @ layout_spans H (normalizeText H rawText) cand))
                             cand))))))"
proof (intro conjI allI impI)
  have eqs: "redactResumeFile H W filePath opts d = redactResumeFile H W filePath (opts\<lparr>flagger := None\<rparr>) d
    \<and> redactResumeFile H W filePath opts d
        = redactResumeFile H W filePath (opts\<lparr>flagger := Some (F\<lparr>flag := \<lambda>t. Inr []\<rparr>)\<rparr>) d"
  proof (cases "extract_text H W filePath (detectNameFromLayout opts \<noteq> Some False)")
    case (Inl e)
    then show ?thesis by (simp add: redactResumeFile_def)
  next
    case (Inr x)
    obtain rawText cand where x: "x = (rawText, cand)" by (cases x)
    from assms(2) Inr x have "isl (flag F (normalizeText H rawText))" by simp
    then have c: "collect_spans H (normalizeText H rawText) cand (Some F)
               = collect_spans H (normalizeText H rawText) cand None"
      by (auto simp: collect_spans_def flagger_spans_def isl_def)
    have c': "collect_spans H (normalizeText H rawText) cand (Some (F\<lparr>flag := \<lambda>t. Inr []\<rparr>))
               = collect_spans H (normalizeText H rawText) cand None"
      by (simp add: collect_spans_def flagger_spans_def)
    show ?thesis
      unfolding redactResumeFile_def Let_def using Inr x assms(1)
      by (simp add: c c' out_base_def make_report_def split: sum.splits)
  qed
  from eqs show "redactResumeFile H W filePath opts d
                 = redactResumeFile H W filePath (opts\<lparr>flagger := None\<rparr>) d"
    by (rule conjunct1)
  from eqs show "redactResumeFile H W filePath opts d
        = redactResumeFile H W filePath (opts\<lparr>flagger := Some (F\<lparr>flag := \<lambda>t. Inr []\<rparr>)\<rparr>) d"
    by (rule conjunct2)
next
  fix rawText cand
  assume e: "extract_text H W filePath (detectNameFromLayout opts \<noteq> Some False) = Inr (rawText, cand)"
  let ?n = "normalizeText H rawText"
  let ?spans = "mergeAndDedupe (findRegexSpans ?n @ layout_spans H ?n cand)"
  from assms(2) e have "isl (flag F ?n)" by simp
  then have c: "collect_spans H ?n cand (flagger opts) = findRegexSpans ?n @ layout_spans H ?n cand"
    by (auto simp: collect_spans_def flagger_spans_def isl_def assms(1))
  from redaction_total [of H ?n cand "flagger opts" "defaultModes ++ modes opts"]
  obtain redacted where r: "applyRedaction H ?n ?spans (defaultModes ++ modes opts) = Inr redacted"
    unfolding c by blast
  have s: "?spans = mergeAndDedupe (collect_spans H ?n cand (flagger opts))"
    by (simp only: c)
  from redactResumeFile_redacted [OF e s r, of d] r
  show "\<exists>redacted.
             applyRedaction H (normalizeText H rawText)
               (mergeAndDedupe (findRegexSpans (normalizeText H rawText)
                                @ layout_spans H (normalizeText H rawText) cand))
               (defaultModes ++ modes opts) = Inr redacted
             \<and> redactResumeFile H W filePath opts d =
                (if \<not> writable W (out_base opts filePath @ ''.redacted.txt'') then (Inl WriteError, d)
                 else if \<not> writable W (out_base opts filePath @ ''.pii.report.json'')
                 then (Inl WriteError, d(out_base opts filePath @ ''.redacted.txt'' \<mapsto> Text_file redacted))
                 else (Inr \<lparr>redactedText = redacted, fileHashSha256 = sha256Hex H rawText,
                            hits = mergeAndDedupe (findRegexSpans (normalizeText H rawText)
                                     @ layout_spans H (normalizeText H rawText) cand),
                            counts = count_kinds
                                   (mergeAndDedupe (findRegexSpans (normalizeText H rawText)
                                     @ layout_spans H (normalizeText H rawText) cand)),
                            outRedactedPath = Some (out_base opts filePath @ ''.redacted.txt''),
                            outReportPath = Some (out_base opts filePath @ ''.pii.report.json'')\<rparr>,
                       d(out_base opts filePath @ ''.redacted.txt'' \<mapsto> Text_file redacted,
                         out_base opts filePath @ ''.pii.report.json'' \<mapsto>
                           Json_file (make_report opts
                             (count_kinds
                                (mergeAndDedupe (findRegexSpans (normalizeText H rawText)
                                   @ layout_spans H (normalizeText H rawText) cand)))
                             (sha256Hex H rawText) (defaultModes ++ modes opts)
                             (mergeAndDedupe (findRegexSpans (normalizeText H rawText)
                                @ layout_spans H (normalizeText H rawText) cand))
                             cand))))"
    by blast
qed

lemma layout_spans_None: "layout_spans H n None = []"
  by (simp add: layout_spans_def)

theorem flagger_failure_is_empty_witness:
  "redactResumeFile ascii_host mail_world ''cv.txt'' (no_options\<lparr>flagger := Some failing_flagger\<rparr>)
     Map.empty
   = (Inr \<lparr>redactedText = ''[[EMAIL:00000000]]'', fileHashSha256 = sha256Hex ascii_host ''a@b.cc'',
            hits = [mail_span], counts = count_kinds [mail_span],
            outRedactedPath = Some ''cv.redacted.txt'',
            outReportPath = Some ''cv.pii.report.json''\<rparr>,
      [''cv.redacted.txt'' \<mapsto> Text_file ''[[EMAIL:00000000]]'',
       ''cv.pii.report.json'' \<mapsto>
          Json_file (make_report (no_options\<lparr>flagger := Some failing_flagger\<rparr>)
                       (count_kinds [mail_span]) (sha256Hex ascii_host ''a@b.cc'')
                       (defaultModes ++ Map.empty) [mail_span] None)])"
proof -
  let ?opts = "no_options\<lparr>flagger := Some failing_flagger\<rparr>"
  have f: "flagger ?opts = Some failing_flagger" by simp
  have i: "\<forall>rawText cand.
           extract_text ascii_host mail_world ''cv.txt'' (detectNameFromLayout ?opts \<noteq> Some False)
             = Inr (rawText, cand)
           \<longrightarrow> isl (flag failing_flagger (normalizeText ascii_host rawText))"
    by (simp add: failing_flagger_def)
  have e: "extract_text ascii_host mail_world ''cv.txt'' (detectNameFromLayout ?opts \<noteq> Some False)
           = Inr (''a@b.cc'', None)"
    by (simp add: extract_txt mail_world_def)
  have m: "modes ?opts = Map.empty" by (simp add: no_options_def)
  have b: "out_base ?opts ''cv.txt'' = ''cv''"
    by (simp add: out_base_def no_options_def strip_ext_cv)
  have w: "writable mail_world p" for p by (simp add: mail_world_def)
  from flagger_failure_is_empty [OF f i, THEN conjunct2, THEN conjunct2, rule_format, OF e,
      of Map.empty]
  obtain redacted where r:
    "applyRedaction ascii_host ''a@b.cc'' [mail_span] (defaultModes ++ Map.empty) = Inr redacted"
    and run: "redactResumeFile ascii_host mail_world ''cv.txt'' ?opts Map.empty =
       (Inr \<lparr>redactedText = redacted, fileHashSha256 = sha256Hex ascii_host ''a@b.cc'',
              hits = [mail_span], counts = count_kinds [mail_span],
              outRedactedPath = Some ''cv.redacted.txt'',
              outReportPath = Some ''cv.pii.report.json''\<rparr>,
        [''cv.redacted.txt'' \<mapsto> Text_file redacted,
         ''cv.pii.report.json'' \<mapsto>
            Json_file (make_report ?opts (count_kinds [mail_span]) (sha256Hex ascii_host ''a@b.cc'')
                         (defaultModes ++ Map.empty) [mail_span] None)])"
    unfolding normalizeText_mail spans_mail layout_spans_None append_Nil2 mergeAndDedupe_single m b
    by (auto simp: w)
  from r redact_mail have "redacted = ''[[EMAIL:00000000]]''" by simp
  with run show ?thesis by simp
qed

text \<open>
  C8, as the code has it. The two files are not written together. When the
  text is redacted and \<open><base>.redacted.txt\<close> is written, a failure to write
  \<open><base>.pii.report.json\<close> leaves the redacted file on the disk without its
  report.
\<close>

theorem report_write_failure_leaves_redacted_file:
  "isl (fst (redactResumeFile ascii_host report_locked_world ''cv.txt'' no_options Map.empty))
   \<and> snd (redactResumeFile ascii_host report_locked_world ''cv.txt'' no_options Map.empty)
        ''cv.redacted.txt'' = Some (Text_file ''[[EMAIL:00000000]]'')
   \<and> snd (redactResumeFile ascii_host report_locked_world ''cv.txt'' no_options Map.empty)
        ''cv.pii.report.json'' = None"
  by (simp add: run_report_locked)

text \<open>
  C8, amended. An input that cannot be read or parsed fails with its error and
  leaves the disk as it was. Once the text is extracted, the redaction itself
  does not fail and the outcome is decided by the two writes, the redacted
  text first: if it cannot be written the run fails and the disk is as it was;
  if it can and the report cannot, the run fails and the disk has gained
  \<open><base>.redacted.txt\<close> alone; if both can, the run succeeds and the disk
  has gained both files. So a success has written both files, a failure never
  writes the report, and a failure leaves \<open><base>.redacted.txt\<close> behind
  exactly when its write succeeded and the write of the report failed.
\<close>

theorem outputs_on_failure:
  "(isl (extract_text H W filePath (detectNameFromLayout opts \<noteq> Some False)) \<longrightarrow>
      isl (fst (redactResumeFile H W filePath opts d))
      \<and> snd (redactResumeFile H W filePath opts d) = d)
   \<and> (fst (redactResumeFile H W filePath opts d) = Inr r \<longrightarrow>
        snd (redactResumeFile H W filePath opts d) (out_base opts filePath @ ''.redacted.txt'')
          = Some (Text_file (redactedText r))
        \<and> (\<exists>rep. snd (redactResumeFile H W filePath opts d) (out_base opts filePath @ ''.pii.report.json'')
               = Some (Json_file rep)))
   \<and> (isl (fst (redactResumeFile H W filePath opts d)) \<longrightarrow>
        snd (redactResumeFile H W filePath opts d) (out_base opts filePath @ ''.pii.report.json'')
          = d (out_base opts filePath @ ''.pii.report.json'')
        \<and> (snd (redactResumeFile H W filePath opts d) = d
            \<or> writable W (out_base opts filePath @ ''.redacted.txt'')
               \<and> \<not> writable W (out_base opts filePath @ ''.pii.report.json'')
               \<and> (\<exists>txt. snd (redactResumeFile H W filePath opts d)
                      = d(out_base opts filePath @ ''.redacted.txt'' \<mapsto> Text_file txt))))
   \<and> (extract_text H W filePath (detectNameFromLayout opts \<noteq> Some False) = Inl e \<longrightarrow>
        redactResumeFile H W filePath opts d = (Inl e, d))
   \<and> (extract_text H W filePath (detectNameFromLayout opts \<noteq> Some False) = Inr (rawText, cand) \<longrightarrow>
        (\<exists>redacted rep.
            applyRedaction H (normalizeText H rawText)
              (mergeAndDedupe (collect_spans H (normalizeText H rawText) cand (flagger opts)))
              (defaultModes ++ modes opts) = Inr redacted
            \<and> (\<not> writable W (out_base opts filePath @ ''.redacted.txt'') \<longrightarrow>
                 redactResumeFile H W filePath opts d = (Inl WriteError, d))
            \<and> (writable W (out_base opts filePath @ ''.redacted.txt'')
                 \<and> \<not> writable W (out_base opts filePath @ ''.pii.report.json'') \<longrightarrow>
                 redactResumeFile H W filePath opts d
                   = (Inl WriteError, d(out_base opts filePath @ ''.redacted.txt'' \<mapsto> Text_file redacted)))
            \<and> (writable W (out_base opts filePath @ ''.redacted.txt'')
                 \<and> writable W (out_base opts filePath @ ''.pii.report.json'') \<longrightarrow>
                 (\<exists>res. fst (redactResumeFile H W filePath opts d) = Inr res
                     \<and> redactedText res = redacted
                     \<and> outRedactedPath res = Some (out_base opts filePath @ ''.redacted.txt'')
                     \<and> outReportPath res = Some (out_base opts filePath @ ''.pii.report.json''))
                 \<and> snd (redactResumeFile H W filePath opts d)
                     = d(out_base opts filePath @ ''.redacted.txt'' \<mapsto> Text_file redacted,
                         out_base opts filePath @ ''.pii.report.json'' \<mapsto> Json_file rep))))"
proof -
  have old: "(isl (extract_text H W filePath (detectNameFromLayout opts \<noteq> Some False)) \<longrightarrow>
      isl (fst (redactResumeFile H W filePath opts d))
      \<and> snd (redactResumeFile H W filePath opts d) = d)
   \<and> (fst (redactResumeFile H W filePath opts d) = Inr r \<longrightarrow>
        snd (redactResumeFile H W filePath opts d) (out_base opts filePath @ ''.redacted.txt'')
          = Some (Text_file (redactedText r))
        \<and> (\<exists>rep. snd (redactResumeFile H W filePath opts d) (out_base opts filePath @ ''.pii.report.json'')
               = Some (Json_file rep)))
   \<and> (isl (fst (redactResumeFile H W filePath opts d)) \<longrightarrow>
        snd (redactResumeFile H W filePath opts d) (out_base opts filePath @ ''.pii.report.json'')
          = d (out_base opts filePath @ ''.pii.report.json'')
        \<and> (snd (redactResumeFile H W filePath opts d) = d
            \<or> writable W (out_base opts filePath @ ''.redacted.txt'')
               \<and> \<not> writable W (out_base opts filePath @ ''.pii.report.json'')
               \<and> (\<exists>txt. snd (redactResumeFile H W filePath opts d)
                      = d(out_base opts filePath @ ''.redacted.txt'' \<mapsto> Text_file txt))))"
    by (auto simp: redactResumeFile_def Let_def writeFile_def split: sum.splits prod.splits)
  have fails: "redactResumeFile H W filePath opts d = (Inl e, d)"
    if "extract_text H W filePath (detectNameFromLayout opts \<noteq> Some False) = Inl e"
    using that by (rule redactResumeFile_extract_fails)
  have runs: "\<exists>redacted rep.
            applyRedaction H (normalizeText H rawText)
              (mergeAndDedupe (collect_spans H (normalizeText H rawText) cand (flagger opts)))
              (defaultModes ++ modes opts) = Inr redacted
            \<and> (\<not> writable W (out_base opts filePath @ ''.redacted.txt'') \<longrightarrow>
                 redactResumeFile H W filePath opts d = (Inl WriteError, d))
            \<and> (writable W (out_base opts filePath @ ''.redacted.txt'')
                 \<and> \<not> writable W (out_base opts filePath @ ''.pii.report.json'') \<longrightarrow>
                 redactResumeFile H W filePath opts d
                   = (Inl WriteError, d(out_base opts filePath @ ''.redacted.txt'' \<mapsto> Text_file redacted)))
            \<and> (writable W (out_base opts filePath @ ''.redacted.txt'')
                 \<and> writable W (out_base opts filePath @ ''.pii.report.json'') \<longrightarrow>
                 (\<exists>res. fst (redactResumeFile H W filePath opts d) = Inr res
                     \<and> redactedText res = redacted
                     \<and> outRedactedPath res = Some (out_base opts filePath @ ''.redacted.txt'')
                     \<and> outReportPath res = Some (out_base opts filePath @ ''.pii.report.json''))
                 \<and> snd (redactResumeFile H W filePath opts d)
                     = d(out_base opts filePath @ ''.redacted.txt'' \<mapsto> Text_file redacted,
                         out_base opts filePath @ ''.pii.report.json'' \<mapsto> Json_file rep))"
    if e: "extract_text H W filePath (detectNameFromLayout opts \<noteq> Some False) = Inr (rawText, cand)"
  proof -
    let ?n = "normalizeText H rawText"
    let ?spans = "mergeAndDedupe (collect_spans H ?n cand (flagger opts))"
    from redaction_total [of H ?n cand "flagger opts" "defaultModes ++ modes opts"]
    obtain redacted where a: "applyRedaction H ?n ?spans (defaultModes ++ modes opts) = Inr redacted"
      by blast
    note run = redactResumeFile_redacted [OF e refl a, of d]
    show ?thesis
      by (rule exI [of _ redacted],
          rule exI [of _ "make_report opts (count_kinds ?spans) (sha256Hex H rawText)
                            (defaultModes ++ modes opts) ?spans cand"])
        (simp add: a run)
  qed
  from old fails runs show ?thesis by blast
qed

theorem outputs_on_failure_witness:
  "redactResumeFile ascii_host unreadable_world ''cv.txt'' no_options Map.empty
     = (Inl ReadError, Map.empty)
   \<and> redactResumeFile ascii_host report_locked_world ''cv.txt'' no_options Map.empty
     = (Inl WriteError, [''cv.redacted.txt'' \<mapsto> Text_file ''[[EMAIL:00000000]]''])
   \<and> (\<exists>rep. snd (redactResumeFile ascii_host mail_world ''cv.txt'' no_options Map.empty)
       = [''cv.redacted.txt'' \<mapsto> Text_file ''[[EMAIL:00000000]]'',
          ''cv.pii.report.json'' \<mapsto> Json_file rep])"
proof -
  have u: "extract_text ascii_host unreadable_world ''cv.txt''
             (detectNameFromLayout no_options \<noteq> Some False) = Inl ReadError"
    by (simp add: extract_txt unreadable_world_def)
  have l: "extract_text ascii_host report_locked_world ''cv.txt''
             (detectNameFromLayout no_options \<noteq> Some False) = Inr (''a@b.cc'', None)"
    by (simp add: extract_txt report_locked_world_def)
  have m: "extract_text ascii_host mail_world ''cv.txt''
             (detectNameFromLayout no_options \<noteq> Some False) = Inr (''a@b.cc'', None)"
    by (simp add: extract_txt mail_world_def)
  have wl: "writable report_locked_world ''cv.redacted.txt''"
    "\<not> writable report_locked_world ''cv.pii.report.json''"
    by (simp_all add: report_locked_world_def)
  have wm: "writable mail_world p" for p by (simp add: mail_world_def)
  note a = mail_steps(2) [unfolded mail_steps(1)]
  from outputs_on_failure [of ascii_host unreadable_world "''cv.txt''" no_options Map.empty _
      ReadError] u
  have 1: "redactResumeFile ascii_host unreadable_world ''cv.txt'' no_options Map.empty
     = (Inl ReadError, Map.empty)" by blast
  from outputs_on_failure [of ascii_host report_locked_world "''cv.txt''" no_options Map.empty _ _
      "''a@b.cc''" None] l wl a
  have 2: "redactResumeFile ascii_host report_locked_world ''cv.txt'' no_options Map.empty
     = (Inl WriteError, [''cv.redacted.txt'' \<mapsto> Text_file ''[[EMAIL:00000000]]''])"
    by (auto simp: out_base_cv)
  from outputs_on_failure [of ascii_host mail_world "''cv.txt''" no_options Map.empty _ _
      "''a@b.cc''" None] m wm a
  have 3: "\<exists>rep. snd (redactResumeFile ascii_host mail_world ''cv.txt'' no_options Map.empty)
       = [''cv.redacted.txt'' \<mapsto> Text_file ''[[EMAIL:00000000]]'',
          ''cv.pii.report.json'' \<mapsto> Json_file rep]"
    by (auto simp: out_base_cv)
  from 1 2 3 show ?thesis by blast
qed

section \<open>The name candidate\<close>

subsection \<open>Rounding\<close>

lemma round64_0: "round64 0 = 0"
  by (simp add: round64_def)

lemma floor_log2:
  assumes "2 ^ n \<le> x" "x < 2 ^ Suc n"
  shows "\<lfloor>log 2 x\<rfloor> = int n"
proof -
  have "(0::real) < 2 ^ n" by simp
  with assms(1) have pos: "0 < x" by linarith
  have "real n \<le> log 2 x"
    using assms(1) pos by (simp add: le_log_iff powr_realpow)
  moreover have "log 2 x < real n + 1"
    using assms(2) pos by (simp add: log_less_iff powr_realpow powr_add)
  ultimately show ?thesis by linarith
qed

lemma floor_log2_neg:
  assumes "1 / 2 ^ n \<le> x" "x < 2 / 2 ^ n"
  shows "\<lfloor>log 2 x\<rfloor> = - int n"
proof -
  have "(0::real) < 1 / 2 ^ n" by simp
  with assms(1) have pos: "0 < x" by linarith
  have p: "2 powr (- real n) = 1 / 2 ^ n"
    by (simp add: powr_minus powr_realpow inverse_eq_divide)
  have "- real n \<le> log 2 x"
    using assms(1) pos by (simp add: le_log_iff p)
  moreover have "log 2 x < - real n + 1"
    using assms(2) pos by (simp add: log_less_iff powr_diff powr_realpow)
  ultimately show ?thesis by linarith
qed

text \<open>The rounding of a number whose binary exponent is known.\<close>

lemma round64_ge1:
  assumes "2 ^ n \<le> \<bar>x\<bar>" "\<bar>x\<bar> < 2 ^ Suc n" "n \<le> 52"
  shows "round64 x = of_int (round_half_even (x * 2 ^ (52 - n))) / 2 ^ (52 - n)"
proof -
  have "(0::real) < 2 ^ n" by simp
  with assms(1) have "0 < \<bar>x\<bar>" by linarith
  then have nz: "x \<noteq> 0" by simp
  have e: "\<lfloor>log 2 \<bar>x\<bar>\<rfloor> = int n" using assms(1,2) by (rule floor_log2)
  have "2 powr (real_of_int (int n) - 52) = 2 powr (- real (52 - n))"
    using assms(3) by (simp add: of_nat_diff)
  also have "\<dots> = 1 / 2 powr (real (52 - n))" by (rule powr_minus_divide)
  also have "\<dots> = 1 / 2 ^ (52 - n)" by (subst powr_realpow) simp_all
  finally have u: "2 powr (real_of_int (int n) - 52) = 1 / 2 ^ (52 - n)" .
  have m: "max (int n) (- 1022) = int n" by simp
  have "round64 x = of_int (round_half_even (x / (1 / 2 ^ (52 - n)))) * (1 / 2 ^ (52 - n))"
    unfolding round64_def Let_def e m u using nz by (simp only: if_False)
  then show ?thesis by simp
qed

lemma round64_lt1:
  assumes "1 / 2 ^ n \<le> \<bar>x\<bar>" "\<bar>x\<bar> < 2 / 2 ^ n" "n \<le> 1022"
  shows "round64 x = of_int (round_half_even (x * 2 ^ (n + 52))) / 2 ^ (n + 52)"
proof -
  have "(0::real) < 1 / 2 ^ n" by simp
  with assms(1) have "0 < \<bar>x\<bar>" by linarith
  then have nz: "x \<noteq> 0" by simp
  have e: "\<lfloor>log 2 \<bar>x\<bar>\<rfloor> = - int n" using assms(1,2) by (rule floor_log2_neg)
  have "2 powr (real_of_int (- int n) - 52) = 2 powr (- real (n + 52))" by simp
  also have "\<dots> = 1 / 2 powr (real (n + 52))" by (rule powr_minus_divide)
  also have "\<dots> = 1 / 2 ^ (n + 52)" by (subst powr_realpow) simp_all
  finally have u: "2 powr (real_of_int (- int n) - 52) = 1 / 2 ^ (n + 52)" .
  have m: "max (- int n) (- 1022) = - int n" using assms(3) by simp
  have "round64 x = of_int (round_half_even (x / (1 / 2 ^ (n + 52)))) * (1 / 2 ^ (n + 52))"
    unfolding round64_def Let_def e m u using nz by (simp only: if_False)
  then show ?thesis by simp
qed

lemma fsub_self: "fsub a a = 0"
  by (simp add: fsub_def round64_0)

lemma fdiv_0: "fdiv 0 b = 0"
  by (simp add: fdiv_def round64_0)

lemma fmul_0: "fmul a 0 = 0"
  by (simp add: fmul_def round64_0)

lemma fadd_0_0: "fadd 0 0 = 0"
  by (simp add: fadd_def round64_0)

lemma fsub_0_0: "fsub 0 0 = 0"
  by (simp add: fsub_def round64_0)

lemma round_half_even_bounds: "\<lfloor>q\<rfloor> \<le> round_half_even q \<and> round_half_even q \<le> \<lfloor>q\<rfloor> + 1"
  by (simp add: round_half_even_def Let_def)

text \<open>Every rounded number is a multiple of the least positive double.\<close>

lemma round64_grid: "\<exists>k :: int. round64 x = of_int k * 2 powr (- 1074)"
proof (cases "x = 0")
  case True
  then show ?thesis by (intro exI [of _ 0]) (simp add: round64_def)
next
  case False
  define e where "e = max \<lfloor>log 2 \<bar>x\<bar>\<rfloor> (- 1022)"
  define n where "n = nat (e + 1022)"
  have e: "- 1022 \<le> e" by (simp add: e_def)
  have "real_of_int e - 52 = real n + (- 1074)" using e by (simp add: n_def)
  then have "2 powr (real_of_int e - 52) = 2 powr (real n) * 2 powr (- 1074)"
    by (simp only: powr_add)
  also have "2 powr (real n) = 2 ^ n" by (rule powr_realpow) simp
  finally have u: "2 powr (real_of_int e - 52) = 2 ^ n * 2 powr (- 1074)" .
  have "round64 x = of_int (round_half_even (x / (2 ^ n * 2 powr (- 1074)))) * (2 ^ n * 2 powr (- 1074))"
    using False by (simp only: round64_def Let_def e_def [symmetric] u if_False)
  also have "\<dots> = of_int (round_half_even (x / (2 ^ n * 2 powr (- 1074))) * 2 ^ n) * 2 powr (- 1074)"
    by (simp only: of_int_mult of_int_power of_int_numeral mult.assoc)
  finally show ?thesis by (rule exI)
qed

lemma round64_pos:
  assumes "2 powr (- 1074) \<le> d"
  shows "0 < round64 d"
proof -
  have t: "(0::real) < 2 powr (- 1074)" by simp
  with assms have d: "0 < d" by linarith
  define e where "e = max \<lfloor>log 2 \<bar>d\<bar>\<rfloor> (- 1022)"
  define u :: real where "u = 2 powr (real_of_int e - 52)"
  have u: "0 < u" by (simp add: u_def)
  have "u \<le> d"
  proof (cases "\<lfloor>log 2 d\<rfloor> \<le> - 1022")
    case True
    then have "e = - 1022" using d by (simp add: e_def)
    then have "u = 2 powr (- 1074)" by (simp add: u_def)
    with assms show ?thesis by simp
  next
    case False
    then have e: "e = \<lfloor>log 2 d\<rfloor>" using d by (simp add: e_def)
    have "real_of_int e - 52 \<le> log 2 d" unfolding e by linarith
    then have "2 powr (real_of_int e - 52) \<le> 2 powr (log 2 d)"
      by (simp only: powr_le_cancel_iff) 
    also have "\<dots> = d" using d by simp
    finally show ?thesis by (simp add: u_def)
  qed
  then have "1 \<le> d / u" using u by (simp add: le_divide_eq)
  then have "1 \<le> \<lfloor>d / u\<rfloor>" by linarith
  with round_half_even_bounds [of "d / u"] have "1 \<le> round_half_even (d / u)" by linarith
  then have "0 < real_of_int (round_half_even (d / u)) * u" using u by simp
  moreover have "round64 d = real_of_int (round_half_even (d / u)) * u"
    using d by (simp add: round64_def Let_def e_def u_def)
  ultimately show ?thesis by simp
qed

lemma round64_nonpos:
  assumes "d \<le> 0"
  shows "round64 d \<le> 0"
proof (cases "d = 0")
  case True
  then show ?thesis by (simp add: round64_def)
next
  case False
  define u :: real where "u = 2 powr (real_of_int (max \<lfloor>log 2 \<bar>d\<bar>\<rfloor> (- 1022)) - 52)"
  have u: "0 < u" by (simp add: u_def)
  from assms False have "d / u < 0" using u by (simp add: divide_less_0_iff)
  then have "\<lfloor>d / u\<rfloor> + 1 \<le> 0" by linarith
  with round_half_even_bounds [of "d / u"] have "round_half_even (d / u) \<le> 0" by linarith
  then have "real_of_int (round_half_even (d / u)) * u \<le> 0"
    using u by (simp add: mult_le_0_iff)
  moreover have "round64 d = real_of_int (round_half_even (d / u)) * u"
    using False by (simp add: round64_def Let_def u_def)
  ultimately show ?thesis by simp
qed

lemma round64_nonneg:
  assumes "0 \<le> d"
  shows "0 \<le> round64 d"
proof (cases "d = 0")
  case True
  then show ?thesis by (simp add: round64_def)
next
  case False
  define u :: real where "u = 2 powr (real_of_int (max \<lfloor>log 2 \<bar>d\<bar>\<rfloor> (- 1022)) - 52)"
  have u: "0 < u" by (simp add: u_def)
  from assms have "0 \<le> d / u" using u by simp
  then have "0 \<le> \<lfloor>d / u\<rfloor>" by simp
  with round_half_even_bounds [of "d / u"] have "0 \<le> round_half_even (d / u)" by linarith
  then have "0 \<le> real_of_int (round_half_even (d / u)) * u"
    using u by simp
  moreover have "round64 d = real_of_int (round_half_even (d / u)) * u"
    using False by (simp add: round64_def Let_def u_def)
  ultimately show ?thesis by simp
qed

lemma foldl_fadd_nonneg: "0 \<le> a \<Longrightarrow> \<forall>x \<in> set xs. 0 \<le> x \<Longrightarrow> 0 \<le> foldl fadd a xs"
proof (induction xs arbitrary: a)
  case Nil
  then show ?case by simp
next
  case (Cons x xs)
  from Cons.prems have "0 \<le> fadd a x" by (simp add: fadd_def round64_nonneg)
  with Cons.IH [of "fadd a x"] Cons.prems(2) show ?case by simp
qed

text \<open>The rounded difference of two doubles has the sign of their difference.\<close>

lemma fsub_doubles: "(0 < fsub (round64 y) (round64 x)) = (round64 x < round64 y)"
proof (cases "round64 x < round64 y")
  case True
  from round64_grid [of x] obtain kx :: int where kx: "round64 x = of_int kx * 2 powr (- 1074)" ..
  from round64_grid [of y] obtain ky :: int where ky: "round64 y = of_int ky * 2 powr (- 1074)" ..
  have t: "(0::real) < 2 powr (- 1074)" by simp
  from True have "real_of_int kx < real_of_int ky"
    unfolding kx ky using t by (simp only: mult_less_cancel_right_pos)
  then have "1 \<le> real_of_int (ky - kx)" by simp
  then have "1 * 2 powr (- 1074) \<le> real_of_int (ky - kx) * 2 powr (- 1074)"
    using t by (simp only: mult_le_cancel_right_pos)
  then have "2 powr (- 1074) \<le> round64 y - round64 x"
    unfolding kx ky by (simp add: algebra_simps)
  then have "0 < round64 (round64 y - round64 x)" by (rule round64_pos)
  with True show ?thesis by (simp add: fsub_def)
next
  case False
  then have "round64 y - round64 x \<le> 0" by simp
  then have "round64 (round64 y - round64 x) \<le> 0" by (rule round64_nonpos)
  with False show ?thesis by (simp add: fsub_def)
qed

text \<open>
  The doubles of the sample lines: 18 and 36 are doubles; 1.2, 0.6, 0.4 and
  0.2 are not, and the sum of the first three from the left is the double
  below 2.2, which JavaScript prints as 2.1999999999999997.
\<close>

lemma round64_18: "round64 18 = 18"
  using round64_ge1 [of 4 18] by (simp add: round_half_even_def)

lemma round64_36: "round64 36 = 36"
  using round64_ge1 [of 5 36] by (simp add: round_half_even_def)

lemma double_1_2: "round64 (12 / 10) = 5404319552844595 / 4503599627370496"
  using round64_ge1 [of 0 "12 / 10"] by (simp add: round_half_even_def)

lemma double_0_6: "round64 (6 / 10) = 5404319552844595 / 9007199254740992"
  using round64_lt1 [of 1 "6 / 10"] by (simp add: round_half_even_def)

lemma double_0_4: "round64 (4 / 10) = 3602879701896397 / 9007199254740992"
  using round64_lt1 [of 2 "4 / 10"] by (simp add: round_half_even_def)

lemma double_0_2: "round64 (2 / 10) = 3602879701896397 / 18014398509481984"
  using round64_lt1 [of 3 "2 / 10"] by (simp add: round_half_even_def)

lemma round64_1_2: "round64 (5404319552844595 / 4503599627370496) = 5404319552844595 / 4503599627370496"
  using round64_ge1 [of 0 "5404319552844595 / 4503599627370496"] by (simp add: round_half_even_def)

lemma sum_1_8:
  "round64 (5404319552844595 / 4503599627370496 + 5404319552844595 / 9007199254740992)
   = 2026619832316723 / 1125899906842624"
  using round64_ge1 [of 0 "5404319552844595 / 4503599627370496 + 5404319552844595 / 9007199254740992"]
  by (simp add: round_half_even_def)

lemma round64_1_8: "round64 (2026619832316723 / 1125899906842624) = 2026619832316723 / 1125899906842624"
  using round64_ge1 [of 0 "2026619832316723 / 1125899906842624"] by (simp add: round_half_even_def)

lemma sum_2_2:
  "round64 (2026619832316723 / 1125899906842624 + 3602879701896397 / 9007199254740992)
   = 4953959590107545 / 2251799813685248"
  using round64_ge1 [of 1 "2026619832316723 / 1125899906842624 + 3602879701896397 / 9007199254740992"]
  by (simp add: round_half_even_def)

lemma diff_2_0:
  "round64 (4953959590107545 / 2251799813685248 - 3602879701896397 / 18014398509481984)
   = 9007199254740991 / 4503599627370496"
  using round64_ge1 [of 0 "4953959590107545 / 2251799813685248 - 3602879701896397 / 18014398509481984"]
  by (simp add: round_half_even_def)

lemma minus_0_2: "round64 (- (3602879701896397 / 18014398509481984)) = - (3602879701896397 / 18014398509481984)"
  using round64_lt1 [of 3 "- (3602879701896397 / 18014398509481984)"]
  by (simp add: round_half_even_def)

subsection \<open>The choice\<close>

lemma sort_by_desc_hd:
  fixes f :: "'a \<Rightarrow> real"
  assumes "\<forall>a \<in> set xs. \<forall>b \<in> set xs. (0 < fsub (f b) (f a)) = (f a < f b)"
  shows "sort_by (\<lambda>a b. fsub (f b) (f a)) xs = x # rest \<Longrightarrow>
    \<exists>i < length xs. x = xs ! i \<and> (\<forall>j < length xs. f (xs ! j) \<le> f (xs ! i))
       \<and> (\<forall>j < i. f (xs ! j) < f (xs ! i))"
  using assms
proof (induction xs arbitrary: x rest)
  case Nil
  then show ?case by (simp add: sort_by_def)
next
  case (Cons y ys)
  let ?c = "\<lambda>a b. fsub (f b) (f a)"
  have s: "sort_by ?c (y # ys) = insert_by ?c y (sort_by ?c ys)" by (simp add: sort_by_def)
  have sub: "\<forall>a \<in> set ys. \<forall>b \<in> set ys. (0 < fsub (f b) (f a)) = (f a < f b)"
    using Cons.prems(2) by simp
  show ?case
  proof (cases "sort_by ?c ys")
    case Nil
    then have "ys = []" using length_sort_by [of ?c ys] by simp
    with Cons.prems(1) s Nil show ?thesis by simp
  next
    case (Cons z zs)
    from Cons.IH [OF Cons sub] obtain i where i: "i < length ys" "z = ys ! i"
      "\<forall>j < length ys. f (ys ! j) \<le> f (ys ! i)" "\<forall>j < i. f (ys ! j) < f (ys ! i)" by blast
    have "z \<in> set ys" using i(1,2) by simp
    then have cmp: "(0 < fsub (f z) (f y)) = (f y < f z)"
      using Cons.prems(2) by simp
    show ?thesis
    proof (cases "f z > f y")
      case True
      with Cons.prems(1) s Cons cmp have x: "x = z" by simp
      have "\<forall>j < length (y # ys). f ((y # ys) ! j) \<le> f ((y # ys) ! Suc i)"
        using i True by (auto simp: nth_Cons split: nat.splits)
      moreover have "\<forall>j < Suc i. f ((y # ys) ! j) < f ((y # ys) ! Suc i)"
        using i True by (auto simp: nth_Cons split: nat.splits)
      ultimately show ?thesis using i x by (intro exI [of _ "Suc i"]) simp
    next
      case False
      with Cons.prems(1) s Cons cmp have x: "x = y" by simp
      have "\<forall>j < length (y # ys). f ((y # ys) ! j) \<le> f y"
        using i False by (auto simp: nth_Cons split: nat.splits intro: order_trans)
      then show ?thesis using x by (intro exI [of _ 0]) simp
    qed
  qed
qed

lemma survivors_filters:
  "filter (\<lambda>l. \<not> looksLikeHeader (line_text l))
     (filter (\<lambda>l. \<not> hasDigits l \<and> \<not> hasEmailOrPhone l)
       (filter (\<lambda>l. tokenCount l \<ge> 1 \<and> tokenCount l \<le> 5) ls)) = survivors ls"
  by (simp add: survivors_def conj_commute conj_left_commute cong: conj_cong)

lemma not_upper_changes:
  "is_space c \<Longrightarrow> \<not> upper_changes c"
  "c = CHR 0x27 \<or> c = CHR ''.'' \<or> c = CHR ''-'' \<Longrightarrow> \<not> upper_changes c"
  by (auto simp: is_space_def upper_changes_def is_az_def code_def)

lemma caps_char:
  "((is_letter c \<or> is_space c \<or> c \<in> set [CHR 0x27, CHR ''.'', CHR ''-'']) \<and> \<not> upper_changes c)
   = (is_letter c \<and> \<not> upper_changes c \<or> is_space c
      \<or> c = CHR 0x27 \<or> c = CHR ''.'' \<or> c = CHR ''-'')"
proof -
  have a: "is_space c \<Longrightarrow> \<not> upper_changes c" by (rule not_upper_changes)
  have b: "c = CHR 0x27 \<or> c = CHR ''.'' \<or> c = CHR ''-'' \<Longrightarrow> \<not> upper_changes c"
    by (rule not_upper_changes)
  have m: "c \<in> set [CHR 0x27, CHR ''.'', CHR ''-'']
           \<longleftrightarrow> c = CHR 0x27 \<or> c = CHR ''.'' \<or> c = CHR ''-''"
    by (simp only: list.set insert_iff empty_iff simp_thms)
  show ?thesis unfolding m using a b by blast
qed

lemma list_all_conj: "(list_all P s \<and> list_all Q s) = list_all (\<lambda>c. P c \<and> Q c) s"
  by (induction s) auto

lemma allCaps_caps_text: "allCaps s = caps_text s"
  unfolding allCaps_def caps_text_def conj_assoc [symmetric]
  by (simp only: conj_assoc list_all_conj caps_char)

lemma code_mean: "fdiv (foldl (\<lambda>s l. fadd s (maxFont l)) 0 ls) (real (length ls)) = font_mean ls"
  unfolding font_mean_def fsum_def by (simp add: foldl_map)

lemma code_std:
  assumes "ls \<noteq> []"
  shows "math_sqrt H (fdiv (foldl (\<lambda>s l. fadd s (math_pow H (fsub (maxFont l) (font_mean ls)) 2)) 0 ls)
                       (real (max 1 (length ls)))) = font_std H ls"
proof -
  have m: "max 1 (length ls) = length ls" using assms by (cases ls) simp_all
  show ?thesis unfolding m font_std_def fsum_def by (simp add: foldl_map)
qed

lemma code_z:
  assumes "0 \<le> font_std H ls"
  shows "(\<lambda>f. if font_std H ls > 0 then fdiv (fsub f (font_mean ls)) (font_std H ls) else 0)
         = font_z H ls"
proof
  fix f
  from assms have "0 < font_std H ls \<longleftrightarrow> font_std H ls \<noteq> 0" by auto
  then show "(if font_std H ls > 0 then fdiv (fsub f (font_mean ls)) (font_std H ls) else 0)
             = font_z H ls f"
    by (simp add: font_z_def)
qed

lemma scored_spec:
  "scored (Max (line_y ` set ls)) (Min (line_y ` set ls)) (font_z H ls) l
   = l\<lparr>line_score := Some (spec_score H ls l)\<rparr>"
  by (simp add: scored_def Let_def spec_score_def top_fraction_def allCaps_caps_text)

lemma spec_score_double: "\<exists>x. spec_score H ls l = round64 x"
  unfolding spec_score_def Let_def fsub_def fadd_def by (auto split: if_splits)

lemma spec_score_cmp:
  "(0 < fsub (spec_score H ls b) (spec_score H ls a)) = (spec_score H ls a < spec_score H ls b)"
proof -
  from spec_score_double [of H ls a] obtain x where x: "spec_score H ls a = round64 x" ..
  from spec_score_double [of H ls b] obtain y where y: "spec_score H ls b = round64 y" ..
  show ?thesis unfolding x y by (rule fsub_doubles)
qed

lemma font_std_nonneg:
  assumes "\<forall>x. 0 \<le> x \<longrightarrow> 0 \<le> math_sqrt H x" "\<forall>x. 0 \<le> math_pow H x 2"
  shows "0 \<le> font_std H ls"
proof -
  have "0 \<le> fsum (map (\<lambda>l. math_pow H (fsub (maxFont l) (font_mean ls)) 2) ls)"
    unfolding fsum_def using assms(2) by (intro foldl_fadd_nonneg) auto
  then have "0 \<le> fdiv (fsum (map (\<lambda>l. math_pow H (fsub (maxFont l) (font_mean ls)) 2) ls))
                       (real (length ls))"
    unfolding fdiv_def by (intro round64_nonneg) simp
  with assms(1) show ?thesis unfolding font_std_def by blast
qed

lemma chooseNameCandidate_eq:
  assumes "ls \<noteq> []" "0 \<le> font_std H ls"
  shows "chooseNameCandidate H ls =
    (case sort_by (\<lambda>a b. fsub (score_of b) (score_of a))
            (map (\<lambda>l. l\<lparr>line_score := Some (spec_score H ls l)\<rparr>) (survivors ls)) of
       [] \<Rightarrow> None | c # _ \<Rightarrow> Some c)"
  unfolding chooseNameCandidate_def Let_def code_mean code_std [OF assms(1)] code_z [OF assms(2)]
    survivors_filters set_map scored_spec
  using assms(1) by (simp only: if_False)

lemma top_fraction_top:
  fixes l :: LayoutLine
  shows "line_y l = Max (line_y ` set ls) \<Longrightarrow> top_fraction ls l = 0"
  by (simp add: top_fraction_def fsub_self fdiv_0)

text \<open>
  C7, amended. For a non-empty sequence of first-page lines, the detector
  returns nothing exactly when no line passes the filters; otherwise it
  returns a surviving line carrying its score. In the arithmetic of doubles,
  each operation rounded and the sum taken from the left, the score is 2.5
  times the z-score of its maximal font size against all lines (zero when the
  deviation is zero), plus 1.2 if centred, plus 0.6 if bold, minus its
  vertical top fraction, then plus 0.4 for 2 to 4 tokens, then minus 0.2 for a
  text made only of letters that upper-casing leaves alone, white space,
  apostrophes, dots and hyphens. No survivor has a higher score and every
  earlier survivor has a lower one; the comparator of the sort orders by
  score, since the rounded difference of two doubles has the sign of their
  difference. The top fraction is 0 on a topmost line. The host is taken to
  return no negative number for the square root of a number that is not
  negative, nor for a square.
\<close>

theorem name_candidate_choice:
  assumes "ls \<noteq> []"
    and "\<forall>x. 0 \<le> x \<longrightarrow> 0 \<le> math_sqrt H x"
    and "\<forall>x. 0 \<le> math_pow H x 2"
  shows "(chooseNameCandidate H ls = None \<longleftrightarrow> survivors ls = [])
    \<and> (\<forall>c. chooseNameCandidate H ls = Some c \<longrightarrow>
          (\<exists>i < length (survivors ls).
              c = (survivors ls ! i)\<lparr>line_score := Some (spec_score H ls (survivors ls ! i))\<rparr>
              \<and> (\<forall>j < length (survivors ls).
                     spec_score H ls (survivors ls ! j) \<le> spec_score H ls (survivors ls ! i))
              \<and> (\<forall>j < i. spec_score H ls (survivors ls ! j) < spec_score H ls (survivors ls ! i))))
    \<and> (\<forall>l \<in> set ls. line_y l = Max (line_y ` set ls) \<longrightarrow> top_fraction ls l = 0)"
proof (intro conjI allI impI ballI)
  let ?sc = "\<lambda>l. l\<lparr>line_score := Some (spec_score H ls l)\<rparr>"
  let ?cmp = "\<lambda>a b. fsub (score_of b) (score_of a)"
  let ?sorted = "sort_by ?cmp (map ?sc (survivors ls))"
  note eq = chooseNameCandidate_eq [OF assms(1) font_std_nonneg [OF assms(2,3)]]
  have len: "length ?sorted = length (survivors ls)" by (simp add: length_sort_by)
  have sc: "score_of (?sc l) = spec_score H ls l" for l by (simp add: score_of_def)
  have cmp: "\<forall>a \<in> set (map ?sc (survivors ls)). \<forall>b \<in> set (map ?sc (survivors ls)).
               (0 < fsub (score_of b) (score_of a)) = (score_of a < score_of b)"
    using spec_score_cmp [of H ls] by (auto simp: score_of_def)
  show "chooseNameCandidate H ls = None \<longleftrightarrow> survivors ls = []"
    using len by (cases ?sorted) (auto simp: eq)
  {
    fix c assume "chooseNameCandidate H ls = Some c"
    then obtain rest where "?sorted = c # rest"
      by (cases ?sorted) (simp_all add: eq)
    from sort_by_desc_hd [of "map ?sc (survivors ls)" score_of, OF cmp this]
    obtain i where i: "i < length (survivors ls)"
      "c = ?sc (survivors ls ! i)"
      "\<forall>j < length (survivors ls). score_of (?sc (survivors ls ! j)) \<le> score_of (?sc (survivors ls ! i))"
      "\<forall>j < i. score_of (?sc (survivors ls ! j)) < score_of (?sc (survivors ls ! i))"
      by auto
    show "\<exists>i < length (survivors ls).
              c = (survivors ls ! i)\<lparr>line_score := Some (spec_score H ls (survivors ls ! i))\<rparr>
              \<and> (\<forall>j < length (survivors ls).
                     spec_score H ls (survivors ls ! j) \<le> spec_score H ls (survivors ls ! i))
              \<and> (\<forall>j < i. spec_score H ls (survivors ls ! j) < spec_score H ls (survivors ls ! i))"
      using i unfolding sc by (intro exI [of _ i]) simp
  }
  {
    fix l :: LayoutLine
    assume "line_y l = Max (line_y ` set ls)"
    then show "top_fraction ls l = 0" by (rule top_fraction_top)
  }
qed

lemma not_header_names:
  "\<not> looksLikeHeader ''Jane Doe''" "\<not> looksLikeHeader ''John Roe''" "\<not> looksLikeHeader ''A,B''"
  "\<not> looksLikeHeader ''JANE DOE''"
  by code_simp+

lemma caps_samples:
  "\<not> caps_text ''Jane Doe''" "\<not> caps_text ''John Roe''" "\<not> caps_text ''A,B''"
  "caps_text ''JANE DOE''" "caps_text ''O'BRIEN-SMITH JR.''"
  by code_simp+

lemma allCaps_samples:
  "\<not> allCaps ''Jane Doe''" "\<not> allCaps ''A,B''" "allCaps ''JANE DOE''"
  by code_simp+

text \<open>
  The score of a centred bold line of 2 to 4 tokens at the top whose font size
  has the z-score 0, in mixed case and in capitals; and the score of a line
  with none of this and one token, for which every term is 0.
\<close>

lemma heading_score:
  assumes "font_z H ls (maxFont l) = 0" "top_fraction ls l = 0" "centered l" "bold l"
    "2 \<le> tokenCount l \<and> tokenCount l \<le> 4"
  shows "spec_score H ls l =
    (if caps_text (line_text l) then 9007199254740991 / 4503599627370496
     else 4953959590107545 / 2251799813685248)"
proof -
  have w1: "fadd 0 (round64 (12 / 10)) = 5404319552844595 / 4503599627370496"
    by (simp only: fadd_def add_0_left double_1_2 round64_1_2)
  have w2: "fadd (5404319552844595 / 4503599627370496) (round64 (6 / 10))
            = 2026619832316723 / 1125899906842624"
    by (simp only: fadd_def double_0_6 sum_1_8)
  have w3: "fsub (2026619832316723 / 1125899906842624) 0 = 2026619832316723 / 1125899906842624"
    by (simp only: fsub_def diff_zero round64_1_8)
  have w4: "fadd (2026619832316723 / 1125899906842624) (round64 (4 / 10))
            = 4953959590107545 / 2251799813685248"
    by (simp only: fadd_def double_0_4 sum_2_2)
  have w5: "fsub (4953959590107545 / 2251799813685248) (round64 (2 / 10))
            = 9007199254740991 / 4503599627370496"
    by (simp only: fsub_def double_0_2 diff_2_0)
  show ?thesis
    unfolding spec_score_def Let_def assms(1,2) using assms(3-5)
    by (simp only: simp_thms if_True if_False fmul_0 w1 w2 w3 w4 w5)
qed

lemma plain_score:
  assumes "font_z H ls (maxFont l) = 0" "top_fraction ls l = 0" "\<not> centered l" "\<not> bold l"
    "\<not> (2 \<le> tokenCount l \<and> tokenCount l \<le> 4)" "\<not> caps_text (line_text l)"
  shows "spec_score H ls l = 0"
  unfolding spec_score_def Let_def assms(1,2) using assms(3-6)
  by (simp only: simp_thms if_True if_False fmul_0 fadd_0_0 fsub_0_0)

lemma names_mean: "font_mean [jane_line, john_line] = 18"
proof -
  have "fdiv (fadd (fadd 0 18) 18) 2 = 18"
    by (simp add: fadd_def fdiv_def round64_18 round64_36)
  then show ?thesis by (simp add: font_mean_def fsum_def jane_line_def john_line_def)
qed

lemma names_std: "font_std ascii_host [jane_line, john_line] = 0"
  unfolding font_std_def names_mean
  by (simp add: ascii_host_def sqrt64_def pow64_def jane_line_def john_line_def fsub_self
      round64_0 fsum_def fadd_0_0 fdiv_0)

lemma names_score:
  "spec_score ascii_host [jane_line, john_line] jane_line = 4953959590107545 / 2251799813685248"
  "spec_score ascii_host [jane_line, john_line] john_line = 4953959590107545 / 2251799813685248"
proof -
  have z: "font_z ascii_host [jane_line, john_line] f = 0" for f
    by (simp add: font_z_def names_std)
  have t: "top_fraction [jane_line, john_line] l = 0" if "line_y l = 700" for l :: LayoutLine
    using that by (intro top_fraction_top) (simp add: jane_line_def john_line_def)
  have "spec_score ascii_host [jane_line, john_line] jane_line =
    (if caps_text (line_text jane_line) then 9007199254740991 / 4503599627370496
     else 4953959590107545 / 2251799813685248)"
    by (intro heading_score z t) (simp_all add: jane_line_def)
  then show "spec_score ascii_host [jane_line, john_line] jane_line
        = 4953959590107545 / 2251799813685248"
    using caps_samples(1) by (simp add: jane_line_def)
  have "spec_score ascii_host [jane_line, john_line] john_line =
    (if caps_text (line_text john_line) then 9007199254740991 / 4503599627370496
     else 4953959590107545 / 2251799813685248)"
    by (intro heading_score z t) (simp_all add: jane_line_def john_line_def)
  then show "spec_score ascii_host [jane_line, john_line] john_line
        = 4953959590107545 / 2251799813685248"
    using caps_samples(2) by (simp add: jane_line_def john_line_def)
qed

lemma single_mean:
  fixes l :: LayoutLine
  assumes "maxFont l = 18"
  shows "font_mean [l] = 18"
proof -
  have "fdiv (fadd 0 18) 1 = 18"
    by (simp add: fadd_def fdiv_def round64_18)
  then show ?thesis by (simp add: font_mean_def fsum_def assms)
qed

lemma single_std:
  fixes l :: LayoutLine
  assumes "maxFont l = 18"
  shows "font_std ascii_host [l] = 0"
  unfolding font_std_def single_mean [OF assms]
  by (simp add: ascii_host_def sqrt64_def pow64_def assms fsub_self round64_0 fsum_def
      fadd_0_0 fdiv_0)

lemma caps_score: "spec_score ascii_host [caps_line] caps_line = 9007199254740991 / 4503599627370496"
proof -
  have m: "maxFont caps_line = 18" by (simp add: caps_line_def jane_line_def)
  have "spec_score ascii_host [caps_line] caps_line =
    (if caps_text (line_text caps_line) then 9007199254740991 / 4503599627370496
     else 4953959590107545 / 2251799813685248)"
  proof (rule heading_score)
    show "font_z ascii_host [caps_line] (maxFont caps_line) = 0"
      by (simp add: font_z_def single_std [OF m])
    show "top_fraction [caps_line] caps_line = 0"
      by (rule top_fraction_top) simp
  qed (simp_all add: caps_line_def jane_line_def)
  then show ?thesis using caps_samples(4) by (simp add: caps_line_def)
qed

lemma comma_score: "spec_score ascii_host [comma_line] comma_line = 0"
proof (rule plain_score)
  have m: "maxFont comma_line = 18" by (simp add: comma_line_def)
  show "font_z ascii_host [comma_line] (maxFont comma_line) = 0"
    by (simp add: font_z_def single_std [OF m])
  show "top_fraction [comma_line] comma_line = 0"
    by (rule top_fraction_top) simp
  show "\<not> caps_text (line_text comma_line)"
    using caps_samples(3) by (simp add: comma_line_def)
qed (simp_all add: comma_line_def)

theorem name_candidate_choice_witness:
  "chooseNameCandidate ascii_host [jane_line, john_line]
   = Some (jane_line\<lparr>line_score := Some (4953959590107545 / 2251799813685248)\<rparr>)
   \<and> chooseNameCandidate ascii_host [caps_line]
     = Some (caps_line\<lparr>line_score := Some (9007199254740991 / 4503599627370496)\<rparr>)"
proof -
  have ascii_sqrt: "\<forall>x. 0 \<le> x \<longrightarrow> 0 \<le> math_sqrt ascii_host x"
    by (simp add: ascii_host_def sqrt64_def round64_nonneg)
  have ascii_pow: "\<forall>x. 0 \<le> math_pow ascii_host x 2"
    by (simp add: ascii_host_def pow64_def round64_nonneg)
  have names: "chooseNameCandidate ascii_host [jane_line, john_line]
        = Some (jane_line\<lparr>line_score := Some (4953959590107545 / 2251799813685248)\<rparr>)"
  proof -
    let ?ls = "[jane_line, john_line]"
    have ne: "?ls \<noteq> []" by simp
    have sv: "survivors ?ls = ?ls"
      using not_header_names by (simp add: survivors_def jane_line_def john_line_def)
    note t = name_candidate_choice [OF ne ascii_sqrt ascii_pow, unfolded sv]
    from t have "chooseNameCandidate ascii_host ?ls \<noteq> None" by simp
    then obtain c where c: "chooseNameCandidate ascii_host ?ls = Some c" by auto
    with t obtain i where i: "i < length ?ls"
      "c = (?ls ! i)\<lparr>line_score := Some (spec_score ascii_host ?ls (?ls ! i))\<rparr>"
      "\<forall>j < i. spec_score ascii_host ?ls (?ls ! j) < spec_score ascii_host ?ls (?ls ! i)"
      by blast
    have "i = 0"
    proof (rule ccontr)
      assume "i \<noteq> 0"
      then have "0 < i" by simp
      with i(3) have "spec_score ascii_host ?ls (?ls ! 0) < spec_score ascii_host ?ls (?ls ! i)"
        by blast
      moreover from i(1) \<open>0 < i\<close> have "i = 1" by simp
      ultimately show False using names_score by simp
    qed
    with i(2) c names_score show ?thesis by simp
  qed
  have caps: "chooseNameCandidate ascii_host [caps_line]
        = Some (caps_line\<lparr>line_score := Some (9007199254740991 / 4503599627370496)\<rparr>)"
  proof -
    let ?ls = "[caps_line]"
    have ne: "?ls \<noteq> []" by simp
    have sv: "survivors ?ls = ?ls"
      using not_header_names(4) by (simp add: survivors_def caps_line_def jane_line_def)
    note t = name_candidate_choice [OF ne ascii_sqrt ascii_pow, unfolded sv]
    from t have "chooseNameCandidate ascii_host ?ls \<noteq> None" by simp
    then obtain c where c: "chooseNameCandidate ascii_host ?ls = Some c" by auto
    with t obtain i where i: "i < length ?ls"
      "c = (?ls ! i)\<lparr>line_score := Some (spec_score ascii_host ?ls (?ls ! i))\<rparr>"
      by blast
    from i(1) have "i = 0" by simp
    with i(2) c caps_score show ?thesis by simp
  qed
  from names caps show ?thesis by (rule conjI)
qed

text \<open>
  C7, as the code has it. The text \<open>A,B\<close> is made of upper-case letters and
  punctuation, but a comma is not among the characters of the pattern of
  \<open>allCaps\<close>: the line is chosen with the score 0, where 0.2 less is
  negative.
\<close>

theorem comma_line_not_penalised:
  "upper_case_text (line_text comma_line)
   \<and> chooseNameCandidate ascii_host [comma_line] = Some (comma_line\<lparr>line_score := Some 0\<rparr>)
   \<and> fsub 0 (round64 (2 / 10)) < 0"
proof -
  have u: "upper_case_text ''A,B''" by code_simp
  have sv: "survivors [comma_line] = [comma_line]"
    using not_header_names by (simp add: survivors_def comma_line_def)
  have m: "maxFont comma_line = 18" by (simp add: comma_line_def)
  have "chooseNameCandidate ascii_host [comma_line] = Some (comma_line\<lparr>line_score := Some 0\<rparr>)"
    by (subst chooseNameCandidate_eq) (simp_all add: single_std [OF m] sv sort_by_def comma_score)
  moreover have "fsub 0 (round64 (2 / 10)) < 0"
  proof -
    have "fsub 0 (round64 (2 / 10)) = - (3602879701896397 / 18014398509481984)"
      by (simp only: fsub_def double_0_2 diff_0 minus_0_2)
    then show ?thesis by simp
  qed
  ultimately show ?thesis using u by (simp add: comma_line_def)
qed

section \<open>Scenarios\<close>

text \<open>
  The model on the examples of the specification: an obfuscated address is
  normalised, an address in a sentence is found, and a name is located
  whatever its case and spacing.
\<close>

lemma obfuscated_email: "rewrite_text ''jane (at) example (dot) com'' = ''jane@example.com''"
  by code_simp

lemma email_scenario:
  "map (\<lambda>s. (start s, endp s, kind s)) (findRegexSpans ''Contact me at jane.doe@example.com today'')
   = [(14, 34, Email)]"
  by code_simp

lemma locate_jane:
  "locateCandidateInNormalized ascii_host ''Jane  Doe a@b.cc'' ''jane doe'' = Some (0, 9)"
  by code_simp

end
